theory Spec2Isabelle
  imports Complex_Main "HOL-Library.Multiset"
begin

section \<open>The registry of src/ecs.js as a state machine over an object store\<close>

text \<open>
  The class \<open>ECS\<close> of \<^verbatim>\<open>src/ecs.js\<close> mutates three kinds of objects that reference each
  other: the registry itself, entities and systems. The model keeps one registry and two
  stores, from references (object identities) to the fields of entities and of systems.
  Every method of the class is a function from a world to a world.

  JavaScript numbers are idealised: the tick counter is a natural number (it starts at 0
  and the class only ever adds 1 to it), a frequency is an integer, both exact below
  \<open>2^53\<close> in the source; clock readings are reals.
\<close>

subsection \<open>JavaScript values and operators used by the class\<close>

datatype js_value =
    JUndefined
  | JNull
  | JBool bool
  | JNumber real
  | JString string
  | JObject "(string \<times> js_value) list"

datatype js_error = TypeError

text \<open>
  \<open>options.systemsFirst\<close>: reading a property of \<open>undefined\<close> or \<open>null\<close> throws a
  TypeError; an object yields the property's value, or \<open>undefined\<close> when it has none;
  a number, a string or a boolean is boxed and has no property of that name.
\<close>

fun get_systemsFirst :: "js_value \<Rightarrow> js_error + js_value" where
  "get_systemsFirst JUndefined = Inl TypeError"
| "get_systemsFirst JNull = Inl TypeError"
| "get_systemsFirst (JObject props) =
     Inr (case map_of props ''systemsFirst'' of None \<Rightarrow> JUndefined | Some v \<Rightarrow> v)"
| "get_systemsFirst (JBool b) = Inr JUndefined"
| "get_systemsFirst (JNumber r) = Inr JUndefined"
| "get_systemsFirst (JString s) = Inr JUndefined"

text \<open>Truthiness, as the operators \<open>||\<close>, \<open>?:\<close> and \<open>!\<close> read a value.\<close>

fun truthy :: "js_value \<Rightarrow> bool" where
  "truthy JUndefined = False"
| "truthy JNull = False"
| "truthy (JBool b) = b"
| "truthy (JNumber r) = (r \<noteq> 0)"
| "truthy (JString s) = (s \<noteq> [])"
| "truthy (JObject props) = True"

text \<open>\<open>a || b\<close> is \<open>a\<close> itself when \<open>a\<close> is truthy, and \<open>b\<close> otherwise.\<close>

definition js_or :: "js_value \<Rightarrow> js_value \<Rightarrow> js_value" where
  "js_or a b = (if truthy a then a else b)"

text \<open>
  \<open>a % b\<close> on integers: the remainder of the truncated division, with the sign of the
  dividend; \<open>None\<close> stands for \<open>NaN\<close>, the result when the divisor is zero.
\<close>

definition js_rem :: "int \<Rightarrow> int \<Rightarrow> int option" where
  "js_rem a b = (if b = 0 then None else Some (sgn a * (\<bar>a\<bar> mod \<bar>b\<bar>)))"

text \<open>\<open>x > 0\<close>: every comparison with \<open>NaN\<close> is false.\<close>

definition js_gt0 :: "int option \<Rightarrow> bool" where
  "js_gt0 x = (case x of None \<Rightarrow> False | Some v \<Rightarrow> v > 0)"

text \<open>
  \<open>Array.prototype.indexOf\<close>: the first index holding the element (compared by identity),
  or \<open>-1\<close>.
\<close>

fun indexOf :: "'a list \<Rightarrow> 'a \<Rightarrow> int" where
  "indexOf [] x = - 1"
| "indexOf (y # ys) x =
     (if y = x then 0 else (let r = indexOf ys x in if r = - 1 then - 1 else r + 1))"

text \<open>What a call returns: a function body with no \<open>return\<close> statement yields \<open>undefined\<close>.\<close>

datatype 'a returned = ReturnsUndefined | Returns 'a

subsection \<open>Objects and the world\<close>

type_synonym eid = nat
type_synonym sid = nat

text \<open>
  Modelled from the spec: the fields of \<open>Entity\<close> and \<open>System\<close>, whose classes (\<^verbatim>\<open>./entity\<close>,
  \<^verbatim>\<open>./system\<close>) are not among the sources. An entity (section 3) has an id, a mapping from
  component names to data, the membership cache \<open>systems\<close> and the back-reference \<open>ecs\<close>; the
  model has one registry, so the back-reference is set or not. A system has the component
  names it requires, a frequency, an enable flag and the tracked list \<open>entities\<close>. The
  source reads \<open>entity.id\<close>, \<open>entity.systems\<close>, \<open>system.entities\<close>, \<open>system.frequency\<close> and
  \<open>system.enable\<close>, and writes \<open>entity.ecs\<close>.
\<close>

datatype ecs_ref = NoEcs | ThisEcs

record entity_obj =
  ent_id :: nat
  ent_components :: "string \<rightharpoonup> js_value"
  ent_systems :: "sid list"
  ent_ecs :: ecs_ref

record system_obj =
  sys_required :: "string list"
  sys_frequency :: int
  sys_enable :: bool
  sys_entities :: "eid list"

text \<open>
  The calls of hooks that the claims speak about, in the order they happen. The record of a
  disposal of an entity carries the entity list of the registry as it stands when the hook
  is called, so that the trace tells a disposal before the removal from the list from one
  after it.
\<close>

datatype event =
    SystemUpdate sid eid real
  | SystemInitialize sid
  | SystemDispose sid
  | EntityDispose eid "eid list"

text \<open>
  The fields of the registry (\<open>this\<close> in \<^verbatim>\<open>src/ecs.js\<close>), the two stores, and the trace of
  hook calls. The trace is ghost state: no code reads it.
\<close>

record world =
  systemsFirst :: js_value
  entities :: "eid list"
  systems :: "sid list"
  updateCounter :: nat
  lastUpdate :: real
  entity_heap :: "eid \<Rightarrow> entity_obj"
  system_heap :: "sid \<Rightarrow> system_obj"
  trace :: "event list"

text \<open>
  The body of \<open>system.update(entity, elapsed)\<close> is user code: any function of the world,
  given per system, entity and elapsed time. It may call the registry and change any
  field. A body that throws is not modelled: every callback returns a world.
\<close>

type_synonym callback = "sid \<Rightarrow> eid \<Rightarrow> real \<Rightarrow> world \<Rightarrow> world"

subsection \<open>The collaborators of the registry\<close>

text \<open>
  Modelled from the spec: \<open>fastSplice\<close> of \<^verbatim>\<open>./utils\<close>, which is not among the sources. The
  spec (section 6): "given a sequence and an index, removes that element in O(1) by
  overwriting it with the last element and shrinking the sequence by one". Every call in
  \<^verbatim>\<open>src/ecs.js\<close> passes the count 1. An index out of range leaves the sequence as it is.
\<close>

definition fastSplice :: "'a list \<Rightarrow> nat \<Rightarrow> 'a list" where
  "fastSplice xs i = (if i < length xs then butlast (xs[i := last xs]) else xs)"

text \<open>
  Modelled from the spec: \<open>System.test\<close> of \<^verbatim>\<open>./system\<close>, which is not among the sources. The
  spec (section 4.3): "returns true iff every required component name is present".
\<close>

definition System_test :: "sid \<Rightarrow> eid \<Rightarrow> world \<Rightarrow> bool" where
  "System_test s e w =
     list_all (\<lambda>c. ent_components (entity_heap w e) c \<noteq> None) (sys_required (system_heap w s))"

text \<open>
  Modelled from the spec: \<open>System.addEntity\<close> of \<^verbatim>\<open>./system\<close>, which is not among the
  sources. The spec's attachment primitive (section 4.1): "append s to e's membership
  cache, append e to s's tracked list".
\<close>

definition System_addEntity :: "sid \<Rightarrow> eid \<Rightarrow> world \<Rightarrow> world" where
  "System_addEntity s e w =
     (let w1 = w\<lparr>entity_heap := (entity_heap w)
                 (e := (entity_heap w e)\<lparr>ent_systems := ent_systems (entity_heap w e) @ [s]\<rparr>)\<rparr>
      in w1\<lparr>system_heap := (system_heap w1)
                 (s := (system_heap w1 s)\<lparr>sys_entities := sys_entities (system_heap w1 s) @ [e]\<rparr>)\<rparr>)"

text \<open>
  Modelled from the spec: \<open>System.removeEntity\<close> of \<^verbatim>\<open>./system\<close>, which is not among the
  sources. The spec (section 4.3): "unordered-remove on the tracked list".
\<close>

definition System_removeEntity :: "sid \<Rightarrow> eid \<Rightarrow> world \<Rightarrow> world" where
  "System_removeEntity s e w =
     (let index = indexOf (sys_entities (system_heap w s)) e
      in if index \<noteq> - 1
         then w\<lparr>system_heap := (system_heap w)
                   (s := (system_heap w s)
                      \<lparr>sys_entities := fastSplice (sys_entities (system_heap w s)) (nat index)\<rparr>)\<rparr>
         else w)"

text \<open>
  Modelled from the spec: \<open>Entity.dispose\<close> of \<^verbatim>\<open>./entity\<close>, which is not among the sources.
  The spec (sections 3 and 4.1): disposal "detaches e from every system in its membership
  cache, removing it from each system's tracked list", "clears its own membership cache",
  and the back-reference to the registry is "cleared when removed".
\<close>

definition Entity_dispose :: "eid \<Rightarrow> world \<Rightarrow> world" where
  "Entity_dispose e w =
     (let w0 = w\<lparr>trace := trace w @ [EntityDispose e (entities w)]\<rparr>;
          w1 = fold (\<lambda>s. System_removeEntity s e) (ent_systems (entity_heap w0 e)) w0
      in w1\<lparr>entity_heap := (entity_heap w1)
                 (e := (entity_heap w1 e)\<lparr>ent_systems := [], ent_ecs := NoEcs\<rparr>)\<rparr>)"

text \<open>
  Modelled from the spec: \<open>System.initialize\<close> and \<open>System.dispose\<close> of \<^verbatim>\<open>./system\<close>, which
  are not among the sources. The spec (section 4.3): "user-overridable no-ops by default";
  after \<open>removeSystem\<close>, entities "are left referencing a disposed system" (section 4.1).
  The model records the call and takes the default body.
\<close>

definition System_initialize :: "sid \<Rightarrow> world \<Rightarrow> world" where
  "System_initialize s w = w\<lparr>trace := trace w @ [SystemInitialize s]\<rparr>"

definition System_dispose :: "sid \<Rightarrow> world \<Rightarrow> world" where
  "System_dispose s w = w\<lparr>trace := trace w @ [SystemDispose s]\<rparr>"

text \<open>
  \<open>system.update(entity, elapsed)\<close>: the user's body runs, and the call is recorded. The
  trace after the call is the trace before it with the call appended, whatever the body
  did.
\<close>

definition System_update :: "callback \<Rightarrow> sid \<Rightarrow> eid \<Rightarrow> real \<Rightarrow> world \<Rightarrow> world" where
  "System_update upd s e elapsed w =
     (upd s e elapsed w)\<lparr>trace := trace w @ [SystemUpdate s e elapsed]\<rparr>"

subsection \<open>The class ECS\<close>

text \<open>
  \<open>constructor(options)\<close>, lines 17 to 52. The clock reading \<open>performance.now()\<close> is the
  argument \<open>now\<close>; the stores hold the entities and systems that exist beside the registry.
\<close>

definition ECS ::
  "js_value \<Rightarrow> real \<Rightarrow> (eid \<Rightarrow> entity_obj) \<Rightarrow> (sid \<Rightarrow> system_obj) \<Rightarrow> js_error + world" where
  "ECS options now eh sh =
     (case get_systemsFirst options of
        Inl err \<Rightarrow> Inl err
      | Inr v \<Rightarrow>
          Inr \<lparr>systemsFirst = js_or v (JBool False),
               entities = [],
               systems = [],
               updateCounter = 0,
               lastUpdate = now,
               entity_heap = eh,
               system_heap = sh,
               trace = []\<rparr>)"

text \<open>
  \<open>getEntityById(id)\<close>, lines 60 to 70: the first listed entity with that id, or \<open>null\<close>
  (\<open>None\<close>).
\<close>

function getEntityById_loop :: "nat \<Rightarrow> nat \<Rightarrow> world \<Rightarrow> eid option" where
  "getEntityById_loop id' i w =
     (if i < length (entities w)
      then (let entity = entities w ! i
            in if ent_id (entity_heap w entity) = id'
               then Some entity
               else getEntityById_loop id' (i + 1) w)
      else None)"
  by pat_completeness auto
termination
  by (relation "measure (\<lambda>(id', i, w). length (entities w) - i)") auto

definition getEntityById :: "nat \<Rightarrow> world \<Rightarrow> eid option" where
  "getEntityById id' w = getEntityById_loop id' 0 w"

text \<open>
  \<open>addEntity(entity)\<close>, lines 77 to 90. The loop reads \<open>this.systems.length\<close> at every
  turn; its body does not change that list.
\<close>

function addEntity_loop :: "eid \<Rightarrow> nat \<Rightarrow> world \<Rightarrow> world" where
  "addEntity_loop entity i w =
     (if i < length (systems w)
      then (let system = systems w ! i
            in if System_test system entity w
               then addEntity_loop entity (i + 1) (System_addEntity system entity w)
               else addEntity_loop entity (i + 1) w)
      else w)"
  by pat_completeness auto
termination
  by (relation "measure (\<lambda>(entity, i, w). length (systems w) - i)")
     (auto simp: System_addEntity_def Let_def)

definition addEntity :: "eid \<Rightarrow> world \<Rightarrow> world" where
  "addEntity entity w =
     (let w1 = w\<lparr>entities := entities w @ [entity]\<rparr>;
          w2 = w1\<lparr>entity_heap := (entity_heap w1)
                     (entity := (entity_heap w1 entity)\<lparr>ent_ecs := ThisEcs\<rparr>)\<rparr>
      in addEntity_loop entity 0 w2)"

text \<open>\<open>removeEntity(entity)\<close>, lines 98 to 109. The index is taken before the disposal.\<close>

definition removeEntity :: "eid \<Rightarrow> world \<Rightarrow> eid \<times> world" where
  "removeEntity entity w =
     (let index = indexOf (entities w) entity
      in if index \<noteq> - 1
         then (let w1 = Entity_dispose entity w
               in (entity, w1\<lparr>entities := fastSplice (entities w1) (nat index)\<rparr>))
         else (entity, w))"

text \<open>\<open>addSystem(system)\<close>, lines 116 to 128.\<close>

function addSystem_loop :: "sid \<Rightarrow> nat \<Rightarrow> world \<Rightarrow> world" where
  "addSystem_loop system i w =
     (if i < length (entities w)
      then (let entity = entities w ! i
            in if System_test system entity w
               then addSystem_loop system (i + 1) (System_addEntity system entity w)
               else addSystem_loop system (i + 1) w)
      else w)"
  by pat_completeness auto
termination
  by (relation "measure (\<lambda>(system, i, w). length (entities w) - i)")
     (auto simp: System_addEntity_def Let_def)

definition addSystem :: "sid \<Rightarrow> world \<Rightarrow> world" where
  "addSystem system w =
     (let w1 = w\<lparr>systems := systems w @ [system]\<rparr>;
          w2 = System_initialize system w1
      in addSystem_loop system 0 w2)"

text \<open>\<open>removeSystem(system)\<close>, lines 135 to 142. The body has no \<open>return\<close> statement.\<close>

definition removeSystem :: "sid \<Rightarrow> world \<Rightarrow> sid returned \<times> world" where
  "removeSystem system w =
     (let index = indexOf (systems w) system
      in if index \<noteq> - 1
         then (let w1 = w\<lparr>systems := fastSplice (systems w) (nat index)\<rparr>
               in (ReturnsUndefined, System_dispose system w1))
         else (ReturnsUndefined, w))"

text \<open>
  The skip test of both traversals, lines 167 and 186:
  \<open>this.updateCounter % system.frequency > 0 || !system.enable\<close>.
\<close>

definition skips :: "world \<Rightarrow> sid \<Rightarrow> bool" where
  "skips w system =
     (js_gt0 (js_rem (int (updateCounter w)) (sys_frequency (system_heap w system)))
      \<or> \<not> sys_enable (system_heap w system))"

text \<open>
  \<open>updateEntities(now, elapsed)\<close>, lines 159 to 176. Both loops read the length of their
  list at every turn, and the callback may change any list: a loop that never ends is the
  value \<open>None\<close>. The inner loop keeps the entity read by the outer one.
\<close>

partial_function (option) updateEntities_inner ::
  "callback \<Rightarrow> real \<Rightarrow> eid \<Rightarrow> nat \<Rightarrow> world \<Rightarrow> world option" where
  "updateEntities_inner upd elapsed entity j w =
     (if j < length (ent_systems (entity_heap w entity))
      then (let system = ent_systems (entity_heap w entity) ! j
            in if skips w system
               then updateEntities_inner upd elapsed entity (j + 1) w
               else updateEntities_inner upd elapsed entity (j + 1)
                      (System_update upd system entity elapsed w))
      else Some w)"

partial_function (option) updateEntities_outer ::
  "callback \<Rightarrow> real \<Rightarrow> nat \<Rightarrow> world \<Rightarrow> world option" where
  "updateEntities_outer upd elapsed i w =
     (if i < length (entities w)
      then Option.bind (updateEntities_inner upd elapsed (entities w ! i) 0 w)
             (\<lambda>w'. updateEntities_outer upd elapsed (i + 1) w')
      else Some w)"

definition updateEntities :: "callback \<Rightarrow> real \<Rightarrow> real \<Rightarrow> world \<Rightarrow> world option" where
  "updateEntities upd now elapsed w =
     Option.bind (updateEntities_outer upd elapsed 0 w)
       (\<lambda>w'. Some (w'\<lparr>updateCounter := updateCounter w' + 1, lastUpdate := now\<rparr>))"

text \<open>\<open>updateSystems(now, elapsed)\<close>, lines 178 to 195.\<close>

partial_function (option) updateSystems_inner ::
  "callback \<Rightarrow> real \<Rightarrow> sid \<Rightarrow> nat \<Rightarrow> world \<Rightarrow> world option" where
  "updateSystems_inner upd elapsed system j w =
     (if j < length (sys_entities (system_heap w system))
      then (let entity = sys_entities (system_heap w system) ! j
            in if skips w system
               then updateSystems_inner upd elapsed system (j + 1) w
               else updateSystems_inner upd elapsed system (j + 1)
                      (System_update upd system entity elapsed w))
      else Some w)"

partial_function (option) updateSystems_outer ::
  "callback \<Rightarrow> real \<Rightarrow> nat \<Rightarrow> world \<Rightarrow> world option" where
  "updateSystems_outer upd elapsed i w =
     (if i < length (systems w)
      then Option.bind (updateSystems_inner upd elapsed (systems w ! i) 0 w)
             (\<lambda>w'. updateSystems_outer upd elapsed (i + 1) w')
      else Some w)"

definition updateSystems :: "callback \<Rightarrow> real \<Rightarrow> real \<Rightarrow> world \<Rightarrow> world option" where
  "updateSystems upd now elapsed w =
     Option.bind (updateSystems_outer upd elapsed 0 w)
       (\<lambda>w'. Some (w'\<lparr>updateCounter := updateCounter w' + 1, lastUpdate := now\<rparr>))"

text \<open>\<open>update()\<close>, lines 149 to 157; \<open>now\<close> is the clock reading \<open>performance.now()\<close>.\<close>

definition update :: "callback \<Rightarrow> real \<Rightarrow> world \<Rightarrow> world option" where
  "update upd now w =
     (let elapsed = now - lastUpdate w
      in if truthy (systemsFirst w)
         then updateSystems upd now elapsed w
         else updateEntities upd now elapsed w)"

text \<open>
  A sequence of registrations and removals, as a caller makes them between two ticks.
\<close>

datatype registration = AddEntity eid | RemoveEntity eid | AddSystem sid | RemoveSystem sid

fun perform :: "registration \<Rightarrow> world \<Rightarrow> world" where
  "perform (AddEntity e) w = addEntity e w"
| "perform (RemoveEntity e) w = snd (removeEntity e w)"
| "perform (AddSystem s) w = addSystem s w"
| "perform (RemoveSystem s) w = snd (removeSystem s w)"

section \<open>What a tick does, read from the trace\<close>

text \<open>The hook calls made between the world \<open>w\<close> and a later world \<open>w'\<close>.\<close>

definition emitted :: "world \<Rightarrow> world \<Rightarrow> event list" where
  "emitted w w' = drop (length (trace w)) (trace w')"

text \<open>The (entity, system) pair of an update call; other hook calls have none.\<close>

fun visit :: "event \<Rightarrow> (eid \<times> sid) list" where
  "visit (SystemUpdate s e elapsed) = [(e, s)]"
| "visit (SystemInitialize s) = []"
| "visit (SystemDispose s) = []"
| "visit (EntityDispose e listed) = []"

definition visits :: "event list \<Rightarrow> (eid \<times> sid) list" where
  "visits evs = concat (map visit evs)"

text \<open>How often \<open>s.update\<close> was invoked on \<open>e\<close>, and the set of pairs visited.\<close>

definition calls :: "sid \<Rightarrow> eid \<Rightarrow> event list \<Rightarrow> nat" where
  "calls s e evs = count_list (visits evs) (e, s)"

definition visited :: "event list \<Rightarrow> (eid \<times> sid) set" where
  "visited evs = set (visits evs)"

text \<open>
  A tick on which a call is due: \<open>s\<close> is listed, tracks \<open>e\<close>, is enabled and has a positive
  frequency that divides the tick counter.
\<close>

definition due :: "world \<Rightarrow> sid \<Rightarrow> eid \<Rightarrow> bool" where
  "due w s e \<longleftrightarrow>
     s \<in> set (systems w) \<and> e \<in> set (sys_entities (system_heap w s)) \<and>
     0 < sys_frequency (system_heap w s) \<and> sys_enable (system_heap w s) \<and>
     int (updateCounter w) mod sys_frequency (system_heap w s) = 0"

text \<open>
  The pairs a tick visits when run in the world \<open>w\<close>, or \<open>None\<close> when the tick does not
  return.
\<close>

definition visited_by :: "callback \<Rightarrow> real \<Rightarrow> world \<Rightarrow> (eid \<times> sid) set option" where
  "visited_by upd now w = map_option (\<lambda>w'. visited (emitted w w')) (update upd now w)"

text \<open>
  How often a tick run in the world \<open>w\<close> invokes \<open>s.update\<close> on \<open>e\<close>, or \<open>None\<close> when the tick
  does not return.
\<close>

definition calls_by :: "callback \<Rightarrow> real \<Rightarrow> world \<Rightarrow> sid \<Rightarrow> eid \<Rightarrow> nat option" where
  "calls_by upd now w s e = map_option (\<lambda>w'. calls s e (emitted w w')) (update upd now w)"

text \<open>
  The update calls of one tick in a world that the callbacks leave as it is, in the order
  of each traversal.
\<close>

definition entities_first_calls :: "world \<Rightarrow> real \<Rightarrow> event list" where
  "entities_first_calls w elapsed =
     concat (map (\<lambda>e. map (\<lambda>s. SystemUpdate s e elapsed)
                        (filter (\<lambda>s. \<not> skips w s) (ent_systems (entity_heap w e))))
                 (entities w))"

definition systems_first_calls :: "world \<Rightarrow> real \<Rightarrow> event list" where
  "systems_first_calls w elapsed =
     concat (map (\<lambda>s. map (\<lambda>e. SystemUpdate s e elapsed)
                        (filter (\<lambda>e. \<not> skips w s) (sys_entities (system_heap w s))))
                 (systems w))"

section \<open>Conditions on callbacks and on worlds\<close>

text \<open>
  Two worlds with the same entity list, system list, membership caches and tracked lists:
  what the spec calls no structural mutation.
\<close>

definition same_lists :: "world \<Rightarrow> world \<Rightarrow> bool" where
  "same_lists w w' \<longleftrightarrow>
     entities w' = entities w \<and> systems w' = systems w \<and>
     (\<forall>e. ent_systems (entity_heap w' e) = ent_systems (entity_heap w e)) \<and>
     (\<forall>s. sys_entities (system_heap w' s) = sys_entities (system_heap w s))"

text \<open>Two worlds in which the skip test reads the same values.\<close>

definition same_gates :: "world \<Rightarrow> world \<Rightarrow> bool" where
  "same_gates w w' \<longleftrightarrow>
     updateCounter w' = updateCounter w \<and>
     (\<forall>s. sys_frequency (system_heap w' s) = sys_frequency (system_heap w s) \<and>
          sys_enable (system_heap w' s) = sys_enable (system_heap w s))"

definition same_shape :: "world \<Rightarrow> world \<Rightarrow> bool" where
  "same_shape w w' \<longleftrightarrow> same_lists w w' \<and> same_gates w w'"

text \<open>
  A callback that performs no structural mutation, and a quiet one, which also leaves
  alone the counter, the frequencies and the enable flags.
\<close>

definition structure_preserving :: "callback \<Rightarrow> bool" where
  "structure_preserving upd \<longleftrightarrow> (\<forall>s e elapsed w. same_lists w (upd s e elapsed w))"

definition quiet :: "callback \<Rightarrow> bool" where
  "quiet upd \<longleftrightarrow> (\<forall>s e elapsed w. same_shape w (upd s e elapsed w))"

text \<open>
  The invariants of the spec's data model (sections 3 and 4.1). No list holds an element
  twice. Every entity that a listed system tracks is a listed entity with that system in its
  membership cache. Every system in the membership cache of a listed entity is a listed
  system that tracks the entity; \<open>removeSystem\<close> gives this one up. Caches and tracked lists
  mirror each other when both of the last two hold.
\<close>

definition no_duplicates :: "world \<Rightarrow> bool" where
  "no_duplicates w \<longleftrightarrow>
     distinct (entities w) \<and> distinct (systems w) \<and>
     list_all (\<lambda>e. distinct (ent_systems (entity_heap w e))) (entities w) \<and>
     list_all (\<lambda>s. distinct (sys_entities (system_heap w s))) (systems w)"

definition tracked_are_cached :: "world \<Rightarrow> bool" where
  "tracked_are_cached w \<longleftrightarrow>
     list_all (\<lambda>s. list_all (\<lambda>e. e \<in> set (entities w) \<and> s \<in> set (ent_systems (entity_heap w e)))
                            (sys_entities (system_heap w s)))
              (systems w)"

definition cached_are_tracked :: "world \<Rightarrow> bool" where
  "cached_are_tracked w \<longleftrightarrow>
     list_all (\<lambda>e. list_all (\<lambda>s. s \<in> set (systems w) \<and> e \<in> set (sys_entities (system_heap w s)))
                            (ent_systems (entity_heap w e)))
              (entities w)"

definition mirrored :: "world \<Rightarrow> bool" where
  "mirrored w \<longleftrightarrow> tracked_are_cached w \<and> cached_are_tracked w"

text \<open>
  A stronger invariant, over all objects and not only the listed ones, that the class keeps
  as long as no entity is added while it is listed and no system is added twice. The set
  \<open>U\<close> holds the systems that have been added so far. Every cache and every tracked list is
  free of duplicates, a system is in the cache of an entity exactly when it tracks the
  entity, an entity that is not listed has an empty cache, and a system that was never
  added tracks nothing.
\<close>

definition coherent :: "sid set \<Rightarrow> world \<Rightarrow> bool" where
  "coherent U w \<longleftrightarrow>
     distinct (entities w) \<and> distinct (systems w) \<and> set (systems w) \<subseteq> U \<and>
     (\<forall>e. distinct (ent_systems (entity_heap w e))) \<and>
     (\<forall>s. distinct (sys_entities (system_heap w s))) \<and>
     (\<forall>e s. s \<in> set (ent_systems (entity_heap w e)) \<longleftrightarrow> e \<in> set (sys_entities (system_heap w s))) \<and>
     (\<forall>e. e \<notin> set (entities w) \<longrightarrow> ent_systems (entity_heap w e) = []) \<and>
     (\<forall>s. s \<notin> U \<longrightarrow> sys_entities (system_heap w s) = [])"

text \<open>
  The worlds that the class builds: from a constructed registry beside a population without
  attachments, by adding an entity that is not listed, adding a system that was never added,
  removing an entity or a system, and ticks with quiet callbacks.
\<close>

inductive built :: "sid set \<Rightarrow> world \<Rightarrow> bool" where
  constructed:
    "ECS options now eh sh = Inr w0 \<Longrightarrow> \<forall>e. ent_systems (eh e) = [] \<Longrightarrow>
     \<forall>s. sys_entities (sh s) = [] \<Longrightarrow> built {} w0"
| entity_added: "built U w \<Longrightarrow> e \<notin> set (entities w) \<Longrightarrow> built U (addEntity e w)"
| entity_removed: "built U w \<Longrightarrow> built U (snd (removeEntity e w))"
| system_added: "built U w \<Longrightarrow> s \<notin> U \<Longrightarrow> built (insert s U) (addSystem s w)"
| system_removed: "built U w \<Longrightarrow> built U (snd (removeSystem s w))"
| ticked: "built U w \<Longrightarrow> quiet upd \<Longrightarrow> update upd now w = Some w' \<Longrightarrow> built U w'"

section \<open>A population to run the registry on\<close>

text \<open>
  Entity 1 carries \<open>pos\<close>, entity 2 carries \<open>pos\<close> and \<open>vel\<close>. System 1 requires \<open>pos\<close> and
  runs every second tick, system 2 requires \<open>pos\<close> and \<open>vel\<close>, system 3 requires \<open>pos\<close> and
  is disabled.
\<close>

definition example_entities :: "eid \<Rightarrow> entity_obj" where
  "example_entities e =
     \<lparr>ent_id = 100 + e,
      ent_components =
        (if e = 1 then [''pos'' \<mapsto> JNumber 0]
         else if e = 2 then [''pos'' \<mapsto> JNumber 0, ''vel'' \<mapsto> JNumber 1]
         else Map.empty),
      ent_systems = [],
      ent_ecs = NoEcs\<rparr>"

definition example_systems :: "sid \<Rightarrow> system_obj" where
  "example_systems s =
     \<lparr>sys_required = (if s = 2 then [''pos'', ''vel''] else [''pos'']),
      sys_frequency = (if s = 1 then 2 else 1),
      sys_enable = (s \<noteq> 3),
      sys_entities = []\<rparr>"

text \<open>
  The world that \<open>new ECS({})\<close> builds at time 10 beside the example population.
\<close>

definition example_fresh :: world where
  "example_fresh =
     \<lparr>systemsFirst = JBool False,
      entities = [],
      systems = [],
      updateCounter = 0,
      lastUpdate = 10,
      entity_heap = example_entities,
      system_heap = example_systems,
      trace = []\<rparr>"

text \<open>
  The world after \<open>addSystem\<close> of the systems 1, 2 and 3 and \<open>addEntity\<close> of the entities 1
  and 2 in that world.
\<close>

definition example_world :: world where
  "example_world =
     \<lparr>systemsFirst = JBool False,
      entities = [1, 2],
      systems = [1, 2, 3],
      updateCounter = 0,
      lastUpdate = 10,
      entity_heap = (\<lambda>e. (example_entities e)
         \<lparr>ent_systems := (if e = 1 then [1, 3] else if e = 2 then [1, 2, 3] else []),
          ent_ecs := (if e = 1 \<or> e = 2 then ThisEcs else NoEcs)\<rparr>),
      system_heap = (\<lambda>s. (example_systems s)
         \<lparr>sys_entities := (if s = 1 then [1, 2] else if s = 2 then [2]
                           else if s = 3 then [1, 2] else [])\<rparr>),
      trace = [SystemInitialize 1, SystemInitialize 2, SystemInitialize 3]\<rparr>"

text \<open>A callback that stores the elapsed time in the entity's \<open>pos\<close> component.\<close>

definition move :: callback where
  "move s e elapsed w =
     w\<lparr>entity_heap := (entity_heap w)
          (e := (entity_heap w e)
             \<lparr>ent_components := (ent_components (entity_heap w e))(''pos'' \<mapsto> JNumber elapsed)\<rparr>)\<rparr>"

text \<open>A callback by which system 1, on entity 2, enables system 3.\<close>

definition wake_up :: callback where
  "wake_up s e elapsed w =
     (if s = 1 \<and> e = 2
      then w\<lparr>system_heap := (system_heap w)(3 := (system_heap w 3)\<lparr>sys_enable := True\<rparr>)\<rparr>
      else w)"

text \<open>
  The example world after \<open>removeSystem\<close> of system 2: entity 2 still holds system 2 in its
  membership cache (the hazard that section 4.1 of the spec acknowledges).
\<close>

definition dangling_world :: world where
  "dangling_world = snd (removeSystem 2 example_world)"

text \<open>
  The example world after \<open>removeSystem\<close> and then \<open>addSystem\<close> of system 2: the second
  registration attaches entity 2 to system 2 once more.
\<close>

definition readded_world :: world where
  "readded_world = fold perform [RemoveSystem 2, AddSystem 2] example_world"

text \<open>
  The example world with the entity list cut to entity 1 by a write to the public field
  \<open>entities\<close>: entity 2 is still tracked by its systems, and no longer listed.
\<close>

definition unlisted_world :: world where
  "unlisted_world = example_world\<lparr>entities := [1]\<rparr>"

text \<open>A callback by which system 1, on entity 1, disables system 2.\<close>

definition switch_off :: callback where
  "switch_off s e elapsed w =
     (if s = 1 \<and> e = 1
      then w\<lparr>system_heap := (system_heap w)(2 := (system_heap w 2)\<lparr>sys_enable := False\<rparr>)\<rparr>
      else w)"

text \<open>A callback by which system 1, on entity 1, removes entity 2 from the registry.\<close>

definition evict :: callback where
  "evict s e elapsed w = (if s = 1 \<and> e = 1 then snd (removeEntity 2 w) else w)"

section \<open>Facts about the collaborators and the registration loops\<close>

declare addEntity_loop.simps [simp del] addSystem_loop.simps [simp del]
  getEntityById_loop.simps [simp del]

lemma indexOf_ge: "- 1 \<le> indexOf xs x"
  by (induction xs) (auto simp: Let_def)

lemma indexOf_absent: "indexOf xs x = - 1 \<longleftrightarrow> x \<notin> set xs"
proof (induction xs)
  case Nil
  then show ?case by simp
next
  case (Cons y ys)
  have "- 1 \<le> indexOf ys x" by (rule indexOf_ge)
  with Cons show ?case by (auto simp: Let_def)
qed

lemma indexOf_present:
  "x \<in> set xs \<Longrightarrow>
     0 \<le> indexOf xs x \<and> nat (indexOf xs x) < length xs \<and> xs ! nat (indexOf xs x) = x \<and>
     (\<forall>j < nat (indexOf xs x). xs ! j \<noteq> x)"
proof (induction xs)
  case Nil
  then show ?case by simp
next
  case (Cons y ys)
  show ?case
  proof (cases "y = x")
    case True
    then show ?thesis by simp
  next
    case False
    with Cons.prems have mem: "x \<in> set ys" by simp
    from Cons.IH[OF mem] have ih: "0 \<le> indexOf ys x" "nat (indexOf ys x) < length ys"
      "ys ! nat (indexOf ys x) = x" "\<forall>j < nat (indexOf ys x). ys ! j \<noteq> x" by auto
    have n: "nat (indexOf ys x + 1) = Suc (nat (indexOf ys x))" using ih(1) by simp
    show ?thesis using False ih n
      by (auto simp: Let_def nth_Cons split: nat.splits)
  qed
qed

lemma systems_System_addEntity [simp]: "systems (System_addEntity s e w) = systems w"
  by (simp add: System_addEntity_def Let_def)

lemma entities_System_addEntity [simp]: "entities (System_addEntity s e w) = entities w"
  by (simp add: System_addEntity_def Let_def)

text \<open>Each registration loop is a fold over the list it walks, since its body keeps that list.\<close>

lemma addEntity_loop_fold:
  "addEntity_loop e i w =
     fold (\<lambda>s w. if System_test s e w then System_addEntity s e w else w) (drop i (systems w)) w"
proof (induction e i w rule: addEntity_loop.induct)
  case (1 entity i w)
  show ?case
  proof (cases "i < length (systems w)")
    case True
    then have dr: "drop i (systems w) = (systems w ! i) # drop (i + 1) (systems w)"
      by (simp add: Cons_nth_drop_Suc)
    show ?thesis
      using True 1 dr by (subst addEntity_loop.simps) (simp add: Let_def)
  next
    case False
    then show ?thesis by (subst addEntity_loop.simps) simp
  qed
qed

lemma addSystem_loop_fold:
  "addSystem_loop s i w =
     fold (\<lambda>e w. if System_test s e w then System_addEntity s e w else w) (drop i (entities w)) w"
proof (induction s i w rule: addSystem_loop.induct)
  case (1 system i w)
  show ?case
  proof (cases "i < length (entities w)")
    case True
    then have dr: "drop i (entities w) = (entities w ! i) # drop (i + 1) (entities w)"
      by (simp add: Cons_nth_drop_Suc)
    show ?thesis
      using True 1 dr by (subst addSystem_loop.simps) (simp add: Let_def)
  next
    case False
    then show ?thesis by (subst addSystem_loop.simps) simp
  qed
qed

text \<open>The lookup by id is the first match of a linear scan.\<close>

lemma getEntityById_loop_find:
  "getEntityById_loop id' i w =
     find (\<lambda>e. ent_id (entity_heap w e) = id') (drop i (entities w))"
proof (induction id' i w rule: getEntityById_loop.induct)
  case (1 id' i w)
  show ?case
  proof (cases "i < length (entities w)")
    case True
    then have dr: "drop i (entities w) = (entities w ! i) # drop (i + 1) (entities w)"
      by (simp add: Cons_nth_drop_Suc)
    show ?thesis
      using True 1 dr by (subst getEntityById_loop.simps) (simp add: Let_def)
  next
    case False
    then show ?thesis by (subst getEntityById_loop.simps) simp
  qed
qed

lemma getEntityById_find:
  "getEntityById id' w = find (\<lambda>e. ent_id (entity_heap w e) = id') (entities w)"
  by (simp add: getEntityById_def getEntityById_loop_find)

text \<open>The example worlds are what the class builds from the example population.\<close>

lemma example_fresh_built:
  "ECS (JObject []) 10 example_entities example_systems = Inr example_fresh"
  by (simp add: ECS_def js_or_def example_fresh_def)

lemma example_world_built:
  "fold perform [AddSystem 1, AddSystem 2, AddSystem 3, AddEntity 1, AddEntity 2] example_fresh
     = example_world"
  by (auto simp: example_fresh_def addSystem_def addEntity_def System_initialize_def
      addSystem_loop_fold addEntity_loop_fold System_test_def System_addEntity_def
      example_entities_def example_systems_def example_world_def fun_eq_iff Let_def)

section \<open>A tick with quiet callbacks\<close>

text \<open>
  When no callback changes what the loops read, every loop ends after one pass over its
  list, and the trace grows by the calls that pass the skip test.
\<close>

lemma same_shape_refl: "same_shape w w"
  by (simp add: same_shape_def same_lists_def same_gates_def)

lemma same_shape_trans: "same_shape a b \<Longrightarrow> same_shape b c \<Longrightarrow> same_shape a c"
  by (simp add: same_shape_def same_lists_def same_gates_def)

lemma same_shape_skips: "same_shape a b \<Longrightarrow> skips b s = skips a s"
  by (simp add: same_shape_def same_gates_def skips_def)

lemma same_shape_System_update: "quiet upd \<Longrightarrow> same_shape w (System_update upd s e el w)"
  by (simp add: quiet_def same_shape_def same_lists_def same_gates_def System_update_def)

lemma same_shape_ent_systems:
  "same_shape a b \<Longrightarrow> ent_systems (entity_heap b e) = ent_systems (entity_heap a e)"
  by (simp add: same_shape_def same_lists_def)

lemma same_shape_sys_entities:
  "same_shape a b \<Longrightarrow> sys_entities (system_heap b s) = sys_entities (system_heap a s)"
  by (simp add: same_shape_def same_lists_def)

lemma updateEntities_inner_quiet:
  assumes q: "quiet upd"
  shows "same_shape w0 w \<Longrightarrow>
    \<exists>w'. updateEntities_inner upd el e j w = Some w' \<and> same_shape w0 w' \<and>
       trace w' = trace w @ map (\<lambda>s. SystemUpdate s e el)
          (filter (\<lambda>s. \<not> skips w0 s) (drop j (ent_systems (entity_heap w0 e))))"
proof (induction "length (ent_systems (entity_heap w0 e)) - j" arbitrary: j w)
  case 0
  then have "\<not> j < length (ent_systems (entity_heap w e))"
    by (simp add: same_shape_ent_systems)
  with 0 show ?case
    by (subst updateEntities_inner.simps) simp
next
  case (Suc n)
  let ?xs = "ent_systems (entity_heap w0 e)"
  from Suc.hyps(2) have lt: "j < length ?xs" by simp
  have eqs: "ent_systems (entity_heap w e) = ?xs"
    using Suc.prems by (rule same_shape_ent_systems)
  have dr: "drop j ?xs = (?xs ! j) # drop (j + 1) ?xs"
    using lt by (simp add: Cons_nth_drop_Suc)
  have n: "n = length ?xs - (j + 1)" using Suc.hyps(2) by simp
  show ?case
  proof (cases "skips w0 (?xs ! j)")
    case True
    from Suc.hyps(1)[OF n Suc.prems] obtain w' where
      "updateEntities_inner upd el e (j + 1) w = Some w'" "same_shape w0 w'"
      "trace w' = trace w @ map (\<lambda>s. SystemUpdate s e el)
          (filter (\<lambda>s. \<not> skips w0 s) (drop (j + 1) ?xs))" by blast
    then show ?thesis using True lt eqs dr same_shape_skips[OF Suc.prems]
      by (subst updateEntities_inner.simps) (simp add: Let_def)
  next
    case False
    let ?w1 = "System_update upd (?xs ! j) e el w"
    have s1: "same_shape w0 ?w1"
      using same_shape_trans[OF Suc.prems same_shape_System_update[OF q]] .
    from Suc.hyps(1)[OF n s1] obtain w' where
      "updateEntities_inner upd el e (j + 1) ?w1 = Some w'" "same_shape w0 w'"
      "trace w' = trace ?w1 @ map (\<lambda>s. SystemUpdate s e el)
          (filter (\<lambda>s. \<not> skips w0 s) (drop (j + 1) ?xs))" by blast
    moreover have "trace ?w1 = trace w @ [SystemUpdate (?xs ! j) e el]"
      by (simp add: System_update_def)
    ultimately show ?thesis using False lt eqs dr same_shape_skips[OF Suc.prems]
      by (subst updateEntities_inner.simps) (simp add: Let_def)
  qed
qed

lemma updateSystems_inner_quiet:
  assumes q: "quiet upd"
  shows "same_shape w0 w \<Longrightarrow>
    \<exists>w'. updateSystems_inner upd el s j w = Some w' \<and> same_shape w0 w' \<and>
       trace w' = trace w @ map (\<lambda>e. SystemUpdate s e el)
          (filter (\<lambda>e. \<not> skips w0 s) (drop j (sys_entities (system_heap w0 s))))"
proof (induction "length (sys_entities (system_heap w0 s)) - j" arbitrary: j w)
  case 0
  then have "\<not> j < length (sys_entities (system_heap w s))"
    by (simp add: same_shape_sys_entities)
  with 0 show ?case
    by (subst updateSystems_inner.simps) simp
next
  case (Suc n)
  let ?xs = "sys_entities (system_heap w0 s)"
  from Suc.hyps(2) have lt: "j < length ?xs" by simp
  have eqs: "sys_entities (system_heap w s) = ?xs"
    using Suc.prems by (rule same_shape_sys_entities)
  have dr: "drop j ?xs = (?xs ! j) # drop (j + 1) ?xs"
    using lt by (simp add: Cons_nth_drop_Suc)
  have n: "n = length ?xs - (j + 1)" using Suc.hyps(2) by simp
  show ?case
  proof (cases "skips w0 s")
    case True
    from Suc.hyps(1)[OF n Suc.prems] obtain w' where
      "updateSystems_inner upd el s (j + 1) w = Some w'" "same_shape w0 w'"
      "trace w' = trace w @ map (\<lambda>e. SystemUpdate s e el)
          (filter (\<lambda>e. \<not> skips w0 s) (drop (j + 1) ?xs))" by blast
    then show ?thesis using True lt eqs dr same_shape_skips[OF Suc.prems]
      by (subst updateSystems_inner.simps) (simp add: Let_def)
  next
    case False
    let ?w1 = "System_update upd s (?xs ! j) el w"
    have s1: "same_shape w0 ?w1"
      using same_shape_trans[OF Suc.prems same_shape_System_update[OF q]] .
    from Suc.hyps(1)[OF n s1] obtain w' where
      "updateSystems_inner upd el s (j + 1) ?w1 = Some w'" "same_shape w0 w'"
      "trace w' = trace ?w1 @ map (\<lambda>e. SystemUpdate s e el)
          (filter (\<lambda>e. \<not> skips w0 s) (drop (j + 1) ?xs))" by blast
    moreover have "trace ?w1 = trace w @ [SystemUpdate s (?xs ! j) el]"
      by (simp add: System_update_def)
    ultimately show ?thesis using False lt eqs dr same_shape_skips[OF Suc.prems]
      by (subst updateSystems_inner.simps) (simp add: Let_def)
  qed
qed

lemma updateEntities_outer_quiet:
  assumes q: "quiet upd"
  shows "same_shape w0 w \<Longrightarrow>
    \<exists>w'. updateEntities_outer upd el i w = Some w' \<and> same_shape w0 w' \<and>
       trace w' = trace w @ concat (map (\<lambda>e. map (\<lambda>s. SystemUpdate s e el)
                        (filter (\<lambda>s. \<not> skips w0 s) (ent_systems (entity_heap w0 e))))
                 (drop i (entities w0)))"
proof (induction "length (entities w0) - i" arbitrary: i w)
  case 0
  then have "\<not> i < length (entities w)"
    by (simp add: same_shape_def same_lists_def)
  with 0 show ?case
    by (subst updateEntities_outer.simps) simp
next
  case (Suc n)
  let ?xs = "entities w0"
  from Suc.hyps(2) have lt: "i < length ?xs" by simp
  have eqs: "entities w = ?xs"
    using Suc.prems by (simp add: same_shape_def same_lists_def)
  have dr: "drop i ?xs = (?xs ! i) # drop (i + 1) ?xs"
    using lt by (simp add: Cons_nth_drop_Suc)
  have n: "n = length ?xs - (i + 1)" using Suc.hyps(2) by simp
  from updateEntities_inner_quiet[OF q Suc.prems, of el "?xs ! i" 0] obtain w1 where
    w1: "updateEntities_inner upd el (?xs ! i) 0 w = Some w1" "same_shape w0 w1"
      "trace w1 = trace w @ map (\<lambda>s. SystemUpdate s (?xs ! i) el)
          (filter (\<lambda>s. \<not> skips w0 s) (ent_systems (entity_heap w0 (?xs ! i))))" by auto
  from Suc.hyps(1)[OF n w1(2)] obtain w' where
    w': "updateEntities_outer upd el (i + 1) w1 = Some w'" "same_shape w0 w'"
      "trace w' = trace w1 @ concat (map (\<lambda>e. map (\<lambda>s. SystemUpdate s e el)
                        (filter (\<lambda>s. \<not> skips w0 s) (ent_systems (entity_heap w0 e))))
                 (drop (i + 1) ?xs))" by blast
  show ?case using lt eqs dr w1 w'
    by (subst updateEntities_outer.simps) simp
qed

lemma updateSystems_outer_quiet:
  assumes q: "quiet upd"
  shows "same_shape w0 w \<Longrightarrow>
    \<exists>w'. updateSystems_outer upd el i w = Some w' \<and> same_shape w0 w' \<and>
       trace w' = trace w @ concat (map (\<lambda>s. map (\<lambda>e. SystemUpdate s e el)
                        (filter (\<lambda>e. \<not> skips w0 s) (sys_entities (system_heap w0 s))))
                 (drop i (systems w0)))"
proof (induction "length (systems w0) - i" arbitrary: i w)
  case 0
  then have "\<not> i < length (systems w)"
    by (simp add: same_shape_def same_lists_def)
  with 0 show ?case
    by (subst updateSystems_outer.simps) simp
next
  case (Suc n)
  let ?xs = "systems w0"
  from Suc.hyps(2) have lt: "i < length ?xs" by simp
  have eqs: "systems w = ?xs"
    using Suc.prems by (simp add: same_shape_def same_lists_def)
  have dr: "drop i ?xs = (?xs ! i) # drop (i + 1) ?xs"
    using lt by (simp add: Cons_nth_drop_Suc)
  have n: "n = length ?xs - (i + 1)" using Suc.hyps(2) by simp
  from updateSystems_inner_quiet[OF q Suc.prems, of el "?xs ! i" 0] obtain w1 where
    w1: "updateSystems_inner upd el (?xs ! i) 0 w = Some w1" "same_shape w0 w1"
      "trace w1 = trace w @ map (\<lambda>e. SystemUpdate (?xs ! i) e el)
          (filter (\<lambda>e. \<not> skips w0 (?xs ! i)) (sys_entities (system_heap w0 (?xs ! i))))" by auto
  from Suc.hyps(1)[OF n w1(2)] obtain w' where
    w': "updateSystems_outer upd el (i + 1) w1 = Some w'" "same_shape w0 w'"
      "trace w' = trace w1 @ concat (map (\<lambda>s. map (\<lambda>e. SystemUpdate s e el)
                        (filter (\<lambda>e. \<not> skips w0 s) (sys_entities (system_heap w0 s))))
                 (drop (i + 1) ?xs))" by blast
  show ?case using lt eqs dr w1 w'
    by (subst updateSystems_outer.simps) simp
qed

text \<open>One tick with quiet callbacks: it returns, and its calls are those of the traversal.\<close>

lemma update_quiet:
  assumes q: "quiet upd"
  shows "\<exists>w'. update upd now w = Some w' \<and>
     trace w' = trace w @ (if truthy (systemsFirst w)
                           then systems_first_calls w (now - lastUpdate w)
                           else entities_first_calls w (now - lastUpdate w)) \<and>
     updateCounter w' = updateCounter w + 1 \<and> lastUpdate w' = now \<and>
     same_lists w w' \<and>
     (\<forall>s. sys_frequency (system_heap w' s) = sys_frequency (system_heap w s) \<and>
          sys_enable (system_heap w' s) = sys_enable (system_heap w s))"
proof (cases "truthy (systemsFirst w)")
  case True
  from updateSystems_outer_quiet[OF q same_shape_refl, of "now - lastUpdate w" 0 w]
  obtain w1 where "updateSystems_outer upd (now - lastUpdate w) 0 w = Some w1"
    "same_shape w w1" "trace w1 = trace w @ systems_first_calls w (now - lastUpdate w)"
    by (auto simp: systems_first_calls_def)
  then show ?thesis using True
    by (simp add: update_def updateSystems_def same_shape_def same_lists_def same_gates_def)
next
  case False
  from updateEntities_outer_quiet[OF q same_shape_refl, of "now - lastUpdate w" 0 w]
  obtain w1 where "updateEntities_outer upd (now - lastUpdate w) 0 w = Some w1"
    "same_shape w w1" "trace w1 = trace w @ entities_first_calls w (now - lastUpdate w)"
    by (auto simp: entities_first_calls_def)
  then show ?thesis using False
    by (simp add: update_def updateEntities_def same_shape_def same_lists_def same_gates_def)
qed

section \<open>Counting the calls of a tick\<close>

lemma emitted_append: "trace w' = trace w @ evs \<Longrightarrow> emitted w w' = evs"
  by (simp add: emitted_def)

lemma count_list_filter:
  "count_list (filter P xs) b = (if P b then count_list xs b else 0)"
  by (induction xs) auto

lemma count_list_map_Pair:
  "count_list (map (Pair x) ys) (a, b) = (if x = a then count_list ys b else 0)"
  by (induction ys) auto

lemma count_list_map_Pair2:
  "count_list (map (\<lambda>x. (x, y)) xs) (a, b) = (if y = b then count_list xs a else 0)"
  by (induction xs) auto

lemma count_list_concat_outer:
  "count_list (concat (map (\<lambda>x. map (Pair x) (f x)) xs)) (a, b)
     = count_list xs a * count_list (f a) b"
  by (induction xs) (auto simp: count_list_map_Pair)

lemma count_list_concat_inner:
  "count_list (concat (map (\<lambda>y. map (\<lambda>x. (x, y)) (g y)) ys)) (a, b)
     = count_list ys b * count_list (g b) a"
  by (induction ys) (auto simp: count_list_map_Pair2)

lemma visits_append [simp]: "visits (xs @ ys) = visits xs @ visits ys"
  by (simp add: visits_def)

lemma visits_entities_first:
  "visits (entities_first_calls w el) =
     concat (map (\<lambda>e. map (Pair e) (filter (\<lambda>s. \<not> skips w s) (ent_systems (entity_heap w e))))
                 (entities w))"
proof -
  have inner: "concat (map (visit \<circ> (\<lambda>s. SystemUpdate s e el)) xs) = map (Pair e) xs" for e xs
    by (induction xs) auto
  have "visits (concat (map (\<lambda>e. map (\<lambda>s. SystemUpdate s e el) (f e)) es))
          = concat (map (\<lambda>e. map (Pair e) (f e)) es)" for f es
    by (induction es) (auto simp: visits_def inner)
  then show ?thesis by (simp add: entities_first_calls_def)
qed

lemma visits_systems_first:
  "visits (systems_first_calls w el) =
     concat (map (\<lambda>s. map (\<lambda>e. (e, s)) (filter (\<lambda>e. \<not> skips w s) (sys_entities (system_heap w s))))
                 (systems w))"
proof -
  have inner: "concat (map (visit \<circ> (\<lambda>e. SystemUpdate s e el)) xs) = map (\<lambda>e. (e, s)) xs" for s xs
    by (induction xs) auto
  have "visits (concat (map (\<lambda>s. map (\<lambda>e. SystemUpdate s e el) (f s)) ss))
          = concat (map (\<lambda>s. map (\<lambda>e. (e, s)) (f s)) ss)" for f ss
    by (induction ss) (auto simp: visits_def inner)
  then show ?thesis by (simp add: systems_first_calls_def)
qed

lemma calls_entities_first:
  "calls s e (entities_first_calls w el) =
     (if skips w s then 0
      else count_list (entities w) e * count_list (ent_systems (entity_heap w e)) s)"
  by (simp add: calls_def visits_entities_first count_list_concat_outer count_list_filter)

lemma calls_systems_first:
  "calls s e (systems_first_calls w el) =
     (if skips w s then 0
      else count_list (systems w) s * count_list (sys_entities (system_heap w s)) e)"
  by (simp add: calls_def visits_systems_first count_list_concat_inner count_list_filter)

lemma visited_entities_first:
  "visited (entities_first_calls w el) =
     {(e, s). e \<in> set (entities w) \<and> s \<in> set (ent_systems (entity_heap w e)) \<and> \<not> skips w s}"
  by (auto simp: visited_def visits_entities_first)

lemma visited_systems_first:
  "visited (systems_first_calls w el) =
     {(e, s). s \<in> set (systems w) \<and> e \<in> set (sys_entities (system_heap w s)) \<and> \<not> skips w s}"
  by (auto simp: visited_def visits_systems_first)

lemma count_list_distinct: "distinct xs \<Longrightarrow> x \<in> set xs \<Longrightarrow> count_list xs x = 1"
  by (induction xs) auto

lemma skips_positive:
  "0 < sys_frequency (system_heap w s) \<Longrightarrow> sys_enable (system_heap w s) \<Longrightarrow>
     skips w s \<longleftrightarrow> int (updateCounter w) mod sys_frequency (system_heap w s) \<noteq> 0"
proof -
  assume f: "0 < sys_frequency (system_heap w s)" and en: "sys_enable (system_heap w s)"
  let ?n = "sys_frequency (system_heap w s)"
  let ?c = "int (updateCounter w)"
  have "sgn ?c * (\<bar>?c\<bar> mod \<bar>?n\<bar>) = ?c mod ?n"
    using f by (cases "updateCounter w = 0") (simp_all add: sgn_if)
  moreover have "0 < ?c mod ?n \<longleftrightarrow> ?c mod ?n \<noteq> 0"
    using pos_mod_sign[OF f, of ?c] by linarith
  ultimately show ?thesis using f en
    by (simp add: skips_def js_rem_def js_gt0_def)
qed

lemma tracked_are_cached_edge:
  "tracked_are_cached w \<Longrightarrow> s \<in> set (systems w) \<Longrightarrow> e \<in> set (sys_entities (system_heap w s)) \<Longrightarrow>
     e \<in> set (entities w) \<and> s \<in> set (ent_systems (entity_heap w e))"
  unfolding tracked_are_cached_def list_all_iff by blast

lemma mirrored_edge:
  "mirrored w \<Longrightarrow>
     s \<in> set (systems w) \<and> e \<in> set (sys_entities (system_heap w s))
     \<longleftrightarrow> e \<in> set (entities w) \<and> s \<in> set (ent_systems (entity_heap w e))"
  unfolding mirrored_def tracked_are_cached_def cached_are_tracked_def list_all_iff by blast

lemma no_duplicates_counts:
  assumes "no_duplicates w"
  shows "s \<in> set (systems w) \<Longrightarrow> count_list (systems w) s = 1"
    and "s \<in> set (systems w) \<Longrightarrow> e \<in> set (sys_entities (system_heap w s)) \<Longrightarrow>
           count_list (sys_entities (system_heap w s)) e = 1"
    and "e \<in> set (entities w) \<Longrightarrow> count_list (entities w) e = 1"
    and "e \<in> set (entities w) \<Longrightarrow> s \<in> set (ent_systems (entity_heap w e)) \<Longrightarrow>
           count_list (ent_systems (entity_heap w e)) s = 1"
proof -
  from assms have d: "distinct (entities w)" "distinct (systems w)"
    "\<forall>e \<in> set (entities w). distinct (ent_systems (entity_heap w e))"
    "\<forall>s \<in> set (systems w). distinct (sys_entities (system_heap w s))"
    unfolding no_duplicates_def list_all_iff by blast+
  show "s \<in> set (systems w) \<Longrightarrow> count_list (systems w) s = 1"
    using d(2) by (rule count_list_distinct)
  show "s \<in> set (systems w) \<Longrightarrow> e \<in> set (sys_entities (system_heap w s)) \<Longrightarrow>
           count_list (sys_entities (system_heap w s)) e = 1"
    using d(4) by (blast intro: count_list_distinct)
  show "e \<in> set (entities w) \<Longrightarrow> count_list (entities w) e = 1"
    using d(1) by (rule count_list_distinct)
  show "e \<in> set (entities w) \<Longrightarrow> s \<in> set (ent_systems (entity_heap w e)) \<Longrightarrow>
           count_list (ent_systems (entity_heap w e)) s = 1"
    using d(3) by (blast intro: count_list_distinct)
qed

lemma skips_systemsFirst [simp]: "skips (w\<lparr>systemsFirst := v\<rparr>) s = skips w s"
  by (simp add: skips_def)

lemma mirrored_pairs:
  assumes "mirrored w"
  shows "{(e, s). s \<in> set (systems w) \<and> e \<in> set (sys_entities (system_heap w s)) \<and> \<not> skips w s}
       = {(e, s). e \<in> set (entities w) \<and> s \<in> set (ent_systems (entity_heap w e)) \<and> \<not> skips w s}"
  using mirrored_edge[OF assms] by auto

lemma visited_by_quiet:
  "quiet upd \<Longrightarrow> visited_by upd now w =
     Some (visited (if truthy (systemsFirst w) then systems_first_calls w (now - lastUpdate w)
                    else entities_first_calls w (now - lastUpdate w)))"
  using update_quiet[of upd now w] by (auto simp: visited_by_def dest: emitted_append)

lemma dangling_fields:
  "entities dangling_world = [1, 2]" "systems dangling_world = [1, 3]"
  "ent_systems (entity_heap dangling_world 2) = [1, 2, 3]"
  "sys_entities (system_heap dangling_world 2) = [2]"
  by (simp_all add: dangling_world_def removeSystem_def fastSplice_def System_dispose_def
      example_world_def Let_def)

section \<open>Facts about the example population\<close>

lemma quiet_move: "quiet move"
  by (simp add: quiet_def same_shape_def same_lists_def same_gates_def move_def)

lemma structure_preserving_wake_up: "structure_preserving wake_up"
  by (simp add: structure_preserving_def same_lists_def wake_up_def)

lemma quiet_structure_preserving: "quiet upd \<Longrightarrow> structure_preserving upd"
  by (simp add: quiet_def structure_preserving_def same_shape_def)

lemma no_duplicates_example: "no_duplicates example_world"
  by (simp add: no_duplicates_def example_world_def)

lemma mirrored_example: "mirrored example_world"
  by (simp add: mirrored_def tracked_are_cached_def cached_are_tracked_def example_world_def)

lemma mirrored_tracked_are_cached: "mirrored w \<Longrightarrow> tracked_are_cached w"
  by (simp add: mirrored_def)

section \<open>Invariants of a tick with any callbacks\<close>

text \<open>
  Whatever the callbacks do, a property that every update call preserves holds when a loop
  returns. The rules follow the loops: the inner ones first, then the outer ones, then
  \<open>update\<close> itself, which adds the increment of the counter and the new timestamp.
\<close>

lemma updateEntities_inner_invariant:
  assumes ret: "updateEntities_inner upd el e j w = Some w'"
    and step: "\<And>w s. I w \<Longrightarrow> \<not> skips w s \<Longrightarrow> I (System_update upd s e el w)"
    and init: "I w"
  shows "I w'"
proof -
  define P where "P = (\<lambda>(u::callback) (t::real) (x::eid) (j::nat) (w::world) (w'::world).
     (\<forall>w s. I w \<longrightarrow> \<not> skips w s \<longrightarrow> I (System_update u s x t w)) \<longrightarrow> I w \<longrightarrow> I w')"
  have "P upd el e j w w'"
  proof (rule updateEntities_inner.raw_induct[where P = P, OF _ ret])
    fix f and u :: callback and t :: real and x :: eid and j :: nat and w w' :: world
    assume IH: "\<And>t x j w b y. f t x j w b = Some y \<Longrightarrow> P t x j w b y"
      and eq: "(if j < length (ent_systems (entity_heap w x))
                then let system = ent_systems (entity_heap w x) ! j
                     in if skips w system then f u t x (j + 1) w
                        else f u t x (j + 1) (System_update u system x t w)
                else Some w) = Some w'"
    show "P u t x j w w'"
      unfolding P_def
    proof (intro impI)
      assume st: "\<forall>w s. I w \<longrightarrow> \<not> skips w s \<longrightarrow> I (System_update u s x t w)" and i: "I w"
      show "I w'"
      proof (cases "j < length (ent_systems (entity_heap w x))")
        case False
        with eq i show ?thesis by simp
      next
        case True
        let ?s = "ent_systems (entity_heap w x) ! j"
        show ?thesis
        proof (cases "skips w ?s")
          case True
          with eq \<open>j < _\<close> have "f u t x (j + 1) w = Some w'" by (simp add: Let_def)
          from IH[OF this] st i show ?thesis unfolding P_def by blast
        next
          case False
          with eq \<open>j < _\<close> have "f u t x (j + 1) (System_update u ?s x t w) = Some w'"
            by (simp add: Let_def)
          from IH[OF this] st i False show ?thesis unfolding P_def by blast
        qed
      qed
    qed
  qed
  with step init show ?thesis unfolding P_def by blast
qed

lemma updateEntities_outer_invariant:
  assumes ret: "updateEntities_outer upd el i w = Some w'"
    and step: "\<And>w s e. I w \<Longrightarrow> \<not> skips w s \<Longrightarrow> I (System_update upd s e el w)"
    and init: "I w"
  shows "I w'"
proof -
  define P where "P = (\<lambda>(u::callback) (t::real) (i::nat) (w::world) (w'::world).
     (\<forall>w s e. I w \<longrightarrow> \<not> skips w s \<longrightarrow> I (System_update u s e t w)) \<longrightarrow> I w \<longrightarrow> I w')"
  have "P upd el i w w'"
  proof (rule updateEntities_outer.raw_induct[where P = P, OF _ ret])
    fix f and u :: callback and t :: real and i :: nat and w w' :: world
    assume IH: "\<And>t i w b y. f t i w b = Some y \<Longrightarrow> P t i w b y"
      and eq: "(if i < length (entities w)
                then Option.bind (updateEntities_inner u t (entities w ! i) 0 w) (f u t (i + 1))
                else Some w) = Some w'"
    show "P u t i w w'"
      unfolding P_def
    proof (intro impI)
      assume st: "\<forall>w s e. I w \<longrightarrow> \<not> skips w s \<longrightarrow> I (System_update u s e t w)" and i: "I w"
      show "I w'"
      proof (cases "i < length (entities w)")
        case False
        with eq i show ?thesis by simp
      next
        case True
        with eq obtain w1 where
          a: "updateEntities_inner u t (entities w ! i) 0 w = Some w1" and
          b: "f u t (i + 1) w1 = Some w'"
          by (auto simp: bind_eq_Some_conv)
        have "I w1"
        proof (rule updateEntities_inner_invariant[where I = I, OF a])
          show "I w" by fact
        next
          fix v s
          assume "I v" "\<not> skips v s"
          with st show "I (System_update u s (entities w ! i) t v)" by blast
        qed
        with IH[OF b] st show ?thesis unfolding P_def by blast
      qed
    qed
  qed
  with step init show ?thesis unfolding P_def by blast
qed

lemma updateSystems_inner_invariant:
  assumes ret: "updateSystems_inner upd el s j w = Some w'"
    and step: "\<And>w x. I w \<Longrightarrow> \<not> skips w s \<Longrightarrow> I (System_update upd s x el w)"
    and init: "I w"
  shows "I w'"
proof -
  define P where "P = (\<lambda>(u::callback) (t::real) (y::sid) (j::nat) (w::world) (w'::world).
     (\<forall>w x. I w \<longrightarrow> \<not> skips w y \<longrightarrow> I (System_update u y x t w)) \<longrightarrow> I w \<longrightarrow> I w')"
  have "P upd el s j w w'"
  proof (rule updateSystems_inner.raw_induct[where P = P, OF _ ret])
    fix f and u :: callback and t :: real and y :: sid and j :: nat and w w' :: world
    assume IH: "\<And>t x j w b y. f t x j w b = Some y \<Longrightarrow> P t x j w b y"
      and eq: "(if j < length (sys_entities (system_heap w y))
                then let entity = sys_entities (system_heap w y) ! j
                     in if skips w y then f u t y (j + 1) w
                        else f u t y (j + 1) (System_update u y entity t w)
                else Some w) = Some w'"
    show "P u t y j w w'"
      unfolding P_def
    proof (intro impI)
      assume st: "\<forall>w x. I w \<longrightarrow> \<not> skips w y \<longrightarrow> I (System_update u y x t w)" and i: "I w"
      show "I w'"
      proof (cases "j < length (sys_entities (system_heap w y))")
        case False
        with eq i show ?thesis by simp
      next
        case True
        let ?e = "sys_entities (system_heap w y) ! j"
        show ?thesis
        proof (cases "skips w y")
          case True
          with eq \<open>j < _\<close> have "f u t y (j + 1) w = Some w'" by (simp add: Let_def)
          from IH[OF this] st i show ?thesis unfolding P_def by blast
        next
          case False
          with eq \<open>j < _\<close> have "f u t y (j + 1) (System_update u y ?e t w) = Some w'"
            by (simp add: Let_def)
          from IH[OF this] st i False show ?thesis unfolding P_def by blast
        qed
      qed
    qed
  qed
  with step init show ?thesis unfolding P_def by blast
qed

lemma updateSystems_outer_invariant:
  assumes ret: "updateSystems_outer upd el i w = Some w'"
    and step: "\<And>w s e. I w \<Longrightarrow> \<not> skips w s \<Longrightarrow> I (System_update upd s e el w)"
    and init: "I w"
  shows "I w'"
proof -
  define P where "P = (\<lambda>(u::callback) (t::real) (i::nat) (w::world) (w'::world).
     (\<forall>w s e. I w \<longrightarrow> \<not> skips w s \<longrightarrow> I (System_update u s e t w)) \<longrightarrow> I w \<longrightarrow> I w')"
  have "P upd el i w w'"
  proof (rule updateSystems_outer.raw_induct[where P = P, OF _ ret])
    fix f and u :: callback and t :: real and i :: nat and w w' :: world
    assume IH: "\<And>t i w b y. f t i w b = Some y \<Longrightarrow> P t i w b y"
      and eq: "(if i < length (systems w)
                then Option.bind (updateSystems_inner u t (systems w ! i) 0 w) (f u t (i + 1))
                else Some w) = Some w'"
    show "P u t i w w'"
      unfolding P_def
    proof (intro impI)
      assume st: "\<forall>w s e. I w \<longrightarrow> \<not> skips w s \<longrightarrow> I (System_update u s e t w)" and i: "I w"
      show "I w'"
      proof (cases "i < length (systems w)")
        case False
        with eq i show ?thesis by simp
      next
        case True
        with eq obtain w1 where
          a: "updateSystems_inner u t (systems w ! i) 0 w = Some w1" and
          b: "f u t (i + 1) w1 = Some w'"
          by (auto simp: bind_eq_Some_conv)
        have "I w1"
        proof (rule updateSystems_inner_invariant[where I = I, OF a])
          show "I w" by fact
        next
          fix v x
          assume "I v" "\<not> skips v (systems w ! i)"
          with st show "I (System_update u (systems w ! i) x t v)" by blast
        qed
        with IH[OF b] st show ?thesis unfolding P_def by blast
      qed
    qed
  qed
  with step init show ?thesis unfolding P_def by blast
qed

lemma update_invariant:
  assumes ret: "update upd now w = Some w'"
    and step: "\<And>v s e. I v \<Longrightarrow> \<not> skips v s \<Longrightarrow> I (System_update upd s e (now - lastUpdate w) v)"
    and init: "I w"
  shows "\<exists>v. I v \<and> w' = v\<lparr>updateCounter := updateCounter v + 1, lastUpdate := now\<rparr>"
proof (cases "truthy (systemsFirst w)")
  case True
  with ret obtain v where v: "updateSystems_outer upd (now - lastUpdate w) 0 w = Some v"
    and w': "w' = v\<lparr>updateCounter := updateCounter v + 1, lastUpdate := now\<rparr>"
    by (auto simp: update_def updateSystems_def bind_eq_Some_conv)
  have "I v" using v step init by (rule updateSystems_outer_invariant[where I = I])
  with w' show ?thesis by blast
next
  case False
  with ret obtain v where v: "updateEntities_outer upd (now - lastUpdate w) 0 w = Some v"
    and w': "w' = v\<lparr>updateCounter := updateCounter v + 1, lastUpdate := now\<rparr>"
    by (auto simp: update_def updateEntities_def bind_eq_Some_conv)
  have "I v" using v step init by (rule updateEntities_outer_invariant[where I = I])
  with w' show ?thesis by blast
qed

section \<open>Further facts used by the claims\<close>


lemma trace_System_update [simp]:
  "trace (System_update upd s e el w) = trace w @ [SystemUpdate s e el]"
  by (simp add: System_update_def)

lemma sys_enable_System_update [simp]:
  "sys_enable (system_heap (System_update upd s' e el w) s) = sys_enable (system_heap (upd s' e el w) s)"
  by (simp add: System_update_def)


text \<open>No registration or removal writes the timestamp.\<close>

lemma lastUpdate_System_addEntity [simp]:
  "lastUpdate (System_addEntity s e w) = lastUpdate w"
  by (simp add: System_addEntity_def Let_def)

lemma lastUpdate_System_removeEntity [simp]:
  "lastUpdate (System_removeEntity s e w) = lastUpdate w"
  by (simp add: System_removeEntity_def Let_def)

lemma lastUpdate_fold_attach:
  "lastUpdate (fold (\<lambda>x w. if P x w then System_addEntity (f x) (g x) w else w) xs w) = lastUpdate w"
  by (induction xs arbitrary: w) auto

lemma lastUpdate_fold_detach:
  "lastUpdate (fold (\<lambda>s. System_removeEntity s e) ss w) = lastUpdate w"
  by (induction ss arbitrary: w) auto

lemma lastUpdate_perform: "lastUpdate (perform op w) = lastUpdate w"
proof (cases op)
  case (AddEntity e)
  then show ?thesis
    using lastUpdate_fold_attach[where f = "\<lambda>s. s" and g = "\<lambda>s. e" and P = "\<lambda>s w. System_test s e w"]
    by (simp add: addEntity_def addEntity_loop_fold Let_def)
next
  case (RemoveEntity e)
  then show ?thesis
    by (simp add: removeEntity_def Entity_dispose_def lastUpdate_fold_detach Let_def)
next
  case (AddSystem s)
  then show ?thesis
    using lastUpdate_fold_attach[where f = "\<lambda>e. s" and g = "\<lambda>e. e" and P = "\<lambda>e w. System_test s e w"]
    by (simp add: addSystem_def addSystem_loop_fold System_initialize_def Let_def)
next
  case (RemoveSystem s)
  then show ?thesis
    by (simp add: removeSystem_def System_dispose_def Let_def)
qed

lemma lastUpdate_fold_perform: "lastUpdate (fold perform ops w) = lastUpdate w"
  by (induction ops arbitrary: w) (auto simp: lastUpdate_perform)

text \<open>The first tick of the example world, five time units after construction.\<close>

lemma update_move_example:
  "\<exists>w'. update move 15 example_world = Some w' \<and>
      emitted example_world w' = [SystemUpdate 1 1 5, SystemUpdate 1 2 5, SystemUpdate 2 2 5] \<and>
      updateCounter w' = 1 \<and> lastUpdate w' = 15"
proof -
  from update_quiet[OF quiet_move, of 15 example_world] obtain w' where
    "update move 15 example_world = Some w'"
    "trace w' = trace example_world @ (if truthy (systemsFirst example_world)
        then systems_first_calls example_world (15 - lastUpdate example_world)
        else entities_first_calls example_world (15 - lastUpdate example_world))"
    "updateCounter w' = updateCounter example_world + 1" "lastUpdate w' = 15" by blast
  then show ?thesis
    by (simp add: emitted_def entities_first_calls_def skips_def js_rem_def js_gt0_def
        example_world_def example_systems_def)
qed

text \<open>The attachment primitive, field by field.\<close>

lemma System_test_System_addEntity [simp]:
  "System_test s' e' (System_addEntity s e w) = System_test s' e' w"
  by (simp add: System_test_def System_addEntity_def Let_def)

lemma trace_System_addEntity [simp]: "trace (System_addEntity s e w) = trace w"
  by (simp add: System_addEntity_def Let_def)

lemma ent_systems_System_addEntity:
  "ent_systems (entity_heap (System_addEntity s e w) e') =
     ent_systems (entity_heap w e') @ (if e' = e then [s] else [])"
  by (simp add: System_addEntity_def Let_def)

lemma sys_entities_System_addEntity:
  "sys_entities (system_heap (System_addEntity s e w) s') =
     sys_entities (system_heap w s') @ (if s' = s then [e] else [])"
  by (simp add: System_addEntity_def Let_def)

lemma ent_ecs_System_addEntity [simp]:
  "ent_ecs (entity_heap (System_addEntity s e w) e') = ent_ecs (entity_heap w e')"
  by (simp add: System_addEntity_def Let_def)

text \<open>What the loop of \<open>addEntity\<close> does to a world, by induction on the system list.\<close>

lemma attach_systems_effect:
  fixes e :: eid
  defines "F \<equiv> (\<lambda>s w. if System_test s e w then System_addEntity s e w else w)"
  shows "entities (fold F ss w) = entities w"
    and "systems (fold F ss w) = systems w"
    and "trace (fold F ss w) = trace w"
    and "System_test s' e' (fold F ss w) = System_test s' e' w"
    and "ent_ecs (entity_heap (fold F ss w) e') = ent_ecs (entity_heap w e')"
    and "ent_systems (entity_heap (fold F ss w) e') =
           ent_systems (entity_heap w e') @ (if e' = e then filter (\<lambda>s. System_test s e w) ss else [])"
    and "sys_entities (system_heap (fold F ss w) s') =
           sys_entities (system_heap w s') @
           replicate (length (filter (\<lambda>s. s = s' \<and> System_test s e w) ss)) e"
proof -
  show "entities (fold F ss w) = entities w"
    by (induction ss arbitrary: w) (simp_all add: F_def)
  show "systems (fold F ss w) = systems w"
    by (induction ss arbitrary: w) (simp_all add: F_def)
  show "trace (fold F ss w) = trace w"
    by (induction ss arbitrary: w) (simp_all add: F_def)
  show t: "System_test s' e' (fold F ss w) = System_test s' e' w" for s' e' w
    by (induction ss arbitrary: w) (simp_all add: F_def)
  show "ent_ecs (entity_heap (fold F ss w) e') = ent_ecs (entity_heap w e')"
    by (induction ss arbitrary: w) (simp_all add: F_def)
  have tF: "System_test s e (F a w) = System_test s e w" for s a w
    by (simp add: F_def)
  show "ent_systems (entity_heap (fold F ss w) e') =
           ent_systems (entity_heap w e') @ (if e' = e then filter (\<lambda>s. System_test s e w) ss else [])"
  proof (induction ss arbitrary: w)
    case Nil
    then show ?case by simp
  next
    case (Cons a ss)
    show ?case
      by (simp add: Cons.IH tF) (simp add: F_def ent_systems_System_addEntity)
  qed
  show "sys_entities (system_heap (fold F ss w) s') =
           sys_entities (system_heap w s') @
           replicate (length (filter (\<lambda>s. s = s' \<and> System_test s e w) ss)) e"
  proof (induction ss arbitrary: w)
    case Nil
    then show ?case by simp
  next
    case (Cons a ss)
    show ?case
      by (simp add: Cons.IH tF) (auto simp: F_def sys_entities_System_addEntity replicate_app_Cons_same)
  qed
qed

text \<open>Unordered removal and the disposal of an entity, field by field.\<close>

lemma fastSplice_mset:
  assumes "i < length xs"
  shows "mset (fastSplice xs i) = mset xs - {#xs ! i#}"
proof -
  from assms have ne: "xs \<noteq> []" by auto
  then obtain ys l where xs: "xs = ys @ [l]" by (metis rev_exhaust)
  show ?thesis
  proof (cases "i < length ys")
    case True
    then have "fastSplice xs i = ys[i := l]"
      by (simp add: fastSplice_def xs list_update_append1)
    moreover have "xs ! i = ys ! i" using True by (simp add: xs nth_append)
    moreover have "mset (ys[i := l]) = add_mset l (mset ys - {#ys ! i#})"
      using True by (simp add: mset_update)
    moreover have "ys ! i \<in># mset ys" using True by simp
    ultimately show ?thesis by (simp add: xs)
  next
    case False
    with assms have i: "i = length ys" by (simp add: xs)
    then show ?thesis by (simp add: fastSplice_def xs)
  qed
qed

lemma fastSplice_length: "i < length xs \<Longrightarrow> length (fastSplice xs i) = length xs - 1"
  by (simp add: fastSplice_def)

lemma entities_System_removeEntity [simp]:
  "entities (System_removeEntity s e w) = entities w"
  by (simp add: System_removeEntity_def Let_def)

lemma trace_System_removeEntity [simp]:
  "trace (System_removeEntity s e w) = trace w"
  by (simp add: System_removeEntity_def Let_def)

lemma systems_System_removeEntity [simp]:
  "systems (System_removeEntity s e w) = systems w"
  by (simp add: System_removeEntity_def Let_def)

lemma detach_fold_fields:
  "entities (fold (\<lambda>s. System_removeEntity s e) ss w) = entities w"
  "systems (fold (\<lambda>s. System_removeEntity s e) ss w) = systems w"
  "trace (fold (\<lambda>s. System_removeEntity s e) ss w) = trace w"
  by (induction ss arbitrary: w) simp_all

lemma Entity_dispose_fields:
  "entities (Entity_dispose e w) = entities w"
  "systems (Entity_dispose e w) = systems w"
  "trace (Entity_dispose e w) = trace w @ [EntityDispose e (entities w)]"
  "ent_systems (entity_heap (Entity_dispose e w) e) = []"
  "ent_ecs (entity_heap (Entity_dispose e w) e) = NoEcs"
  by (simp_all add: Entity_dispose_def Let_def detach_fold_fields)

section \<open>The data model is kept by the class\<close>

lemma fastSplice_distinct:
  assumes d: "distinct xs" and i: "i < length xs"
  shows "distinct (fastSplice xs i) \<and> set (fastSplice xs i) = set xs - {xs ! i}"
proof -
  from i have "xs \<noteq> []" by auto
  then obtain ys l where xs: "xs = ys @ [l]" by (metis rev_exhaust)
  from d have dy: "distinct ys" and l: "l \<notin> set ys" by (simp_all add: xs)
  show ?thesis
  proof (cases "i < length ys")
    case True
    then have f: "fastSplice xs i = ys[i := l]"
      by (simp add: fastSplice_def xs list_update_append1)
    have n: "xs ! i = ys ! i" using True by (simp add: xs nth_append)
    have "distinct (ys[i := l])" using dy l by (simp add: distinct_list_update)
    moreover have "set (ys[i := l]) = insert l (set ys - {ys ! i})"
      using dy True by (rule set_update_distinct)
    moreover have "ys ! i \<in> set ys" using True by simp
    then have "ys ! i \<noteq> l" using l by blast
    ultimately show ?thesis using l unfolding f n by (simp add: xs) blast
  next
    case False
    with i have "i = length ys" by (simp add: xs)
    then show ?thesis using dy l by (simp add: fastSplice_def xs)
  qed
qed

lemma coherent_data_model:
  assumes "coherent U w"
  shows "no_duplicates w" and "tracked_are_cached w"
proof -
  show "no_duplicates w"
    using assms by (simp add: coherent_def no_duplicates_def list_all_iff)
  have "e \<in> set (entities w)" if "e \<in> set (sys_entities (system_heap w s))" for e s
  proof (rule ccontr)
    assume "e \<notin> set (entities w)"
    with assms have "ent_systems (entity_heap w e) = []" by (simp add: coherent_def)
    moreover from assms that have "s \<in> set (ent_systems (entity_heap w e))"
      by (simp add: coherent_def)
    ultimately show False by simp
  qed
  moreover have "s \<in> set (ent_systems (entity_heap w e))"
    if "e \<in> set (sys_entities (system_heap w s))" for e s
    using assms that by (simp add: coherent_def)
  ultimately show "tracked_are_cached w"
    by (simp add: tracked_are_cached_def list_all_iff)
qed

lemma coherent_mirrored:
  assumes "coherent U w" and "U \<subseteq> set (systems w)"
  shows "mirrored w"
proof -
  have "s \<in> set (systems w) \<and> e \<in> set (sys_entities (system_heap w s))"
    if "s \<in> set (ent_systems (entity_heap w e))" for e s
  proof -
    from assms(1) that have t: "e \<in> set (sys_entities (system_heap w s))"
      by (simp add: coherent_def)
    then have "sys_entities (system_heap w s) \<noteq> []" by auto
    with assms(1) have "s \<in> U" unfolding coherent_def by blast
    with assms(2) t show ?thesis by blast
  qed
  then have "cached_are_tracked w"
    by (simp add: cached_are_tracked_def list_all_iff)
  with coherent_data_model(2)[OF assms(1)] show ?thesis by (simp add: mirrored_def)
qed

lemma coherent_fresh:
  assumes "ECS options now eh sh = Inr w0"
    and "\<forall>e. ent_systems (eh e) = []" and "\<forall>s. sys_entities (sh s) = []"
  shows "coherent {} w0"
  using assms by (auto simp: ECS_def coherent_def split: sum.splits)

lemma coherent_same_lists: "coherent U w \<Longrightarrow> same_lists w w' \<Longrightarrow> coherent U w'"
  by (simp add: coherent_def same_lists_def)

lemma coherent_removeSystem:
  assumes "coherent U w"
  shows "coherent U (snd (removeSystem s w))"
proof (cases "s \<in> set (systems w)")
  case False
  then show ?thesis using assms by (simp add: removeSystem_def indexOf_absent)
next
  case True
  let ?i = "nat (indexOf (systems w) s)"
  from indexOf_present[OF True] have i: "?i < length (systems w)" by blast
  from assms have d: "distinct (systems w)" by (simp add: coherent_def)
  note f = fastSplice_distinct[OF d i]
  have ne: "indexOf (systems w) s \<noteq> - 1" using True by (simp add: indexOf_absent)
  show ?thesis
    using assms f ne
    by (auto simp: removeSystem_def System_dispose_def coherent_def Let_def)
qed

text \<open>What the loop of \<open>addSystem\<close> does to a world, by induction on the entity list.\<close>

lemma attach_entities_effect:
  fixes s :: sid
  defines "F \<equiv> (\<lambda>e w. if System_test s e w then System_addEntity s e w else w)"
  shows "entities (fold F es w) = entities w"
    and "systems (fold F es w) = systems w"
    and "trace (fold F es w) = trace w"
    and "System_test s' e' (fold F es w) = System_test s' e' w"
    and "sys_entities (system_heap (fold F es w) s') =
           sys_entities (system_heap w s') @ (if s' = s then filter (\<lambda>e. System_test s e w) es else [])"
    and "ent_systems (entity_heap (fold F es w) e') =
           ent_systems (entity_heap w e') @
           replicate (length (filter (\<lambda>e. e = e' \<and> System_test s e w) es)) s"
proof -
  show "entities (fold F es w) = entities w"
    by (induction es arbitrary: w) (simp_all add: F_def)
  show "systems (fold F es w) = systems w"
    by (induction es arbitrary: w) (simp_all add: F_def)
  show "trace (fold F es w) = trace w"
    by (induction es arbitrary: w) (simp_all add: F_def)
  show "System_test s' e' (fold F es w) = System_test s' e' w" for s' e' w
    by (induction es arbitrary: w) (simp_all add: F_def)
  have tF: "System_test s e (F a w) = System_test s e w" for e a w
    by (simp add: F_def)
  show "sys_entities (system_heap (fold F es w) s') =
           sys_entities (system_heap w s') @ (if s' = s then filter (\<lambda>e. System_test s e w) es else [])"
  proof (induction es arbitrary: w)
    case Nil
    then show ?case by simp
  next
    case (Cons a es)
    show ?case
      by (simp add: Cons.IH tF) (simp add: F_def sys_entities_System_addEntity)
  qed
  show "ent_systems (entity_heap (fold F es w) e') =
           ent_systems (entity_heap w e') @
           replicate (length (filter (\<lambda>e. e = e' \<and> System_test s e w) es)) s"
  proof (induction es arbitrary: w)
    case Nil
    then show ?case by simp
  next
    case (Cons a es)
    show ?case
      by (simp add: Cons.IH tF) (auto simp: F_def ent_systems_System_addEntity replicate_app_Cons_same)
  qed
qed

lemma addEntity_as_fold:
  "addEntity e w =
     fold (\<lambda>s w. if System_test s e w then System_addEntity s e w else w) (systems w)
       (w\<lparr>entities := entities w @ [e],
          entity_heap := (entity_heap w)(e := (entity_heap w e)\<lparr>ent_ecs := ThisEcs\<rparr>)\<rparr>)"
  by (simp add: addEntity_def addEntity_loop_fold Let_def)

lemma addSystem_as_fold:
  "addSystem s w =
     fold (\<lambda>e w. if System_test s e w then System_addEntity s e w else w) (entities w)
       (w\<lparr>systems := systems w @ [s], trace := trace w @ [SystemInitialize s]\<rparr>)"
  by (simp add: addSystem_def addSystem_loop_fold System_initialize_def Let_def)

lemma length_filter_distinct:
  "distinct xs \<Longrightarrow> length (filter (\<lambda>x. x = a \<and> P x) xs) = (if a \<in> set xs \<and> P a then 1 else 0)"
  by (induction xs) auto

lemma coherent_addEntity:
  assumes c: "coherent U w" and fresh: "e \<notin> set (entities w)"
  shows "coherent U (addEntity e w)"
proof -
  let ?w2 = "w\<lparr>entities := entities w @ [e],
          entity_heap := (entity_heap w)(e := (entity_heap w e)\<lparr>ent_ecs := ThisEcs\<rparr>)\<rparr>"
  let ?T = "\<lambda>s. System_test s e ?w2"
  from c have ds: "distinct (systems w)" and de: "distinct (entities w)"
    and sub: "set (systems w) \<subseteq> U"
    and dc: "\<And>x. distinct (ent_systems (entity_heap w x))"
    and dt: "\<And>s. distinct (sys_entities (system_heap w s))"
    and sym: "\<And>x s. s \<in> set (ent_systems (entity_heap w x)) \<longleftrightarrow> x \<in> set (sys_entities (system_heap w s))"
    and unl: "\<And>x. x \<notin> set (entities w) \<Longrightarrow> ent_systems (entity_heap w x) = []"
    and unu: "\<And>s. s \<notin> U \<Longrightarrow> sys_entities (system_heap w s) = []"
    by (simp_all add: coherent_def)
  have ce: "ent_systems (entity_heap w e) = []" using unl fresh by simp
  have nt: "e \<notin> set (sys_entities (system_heap w s))" for s
    using sym[of s e] ce by simp
  have E: "entities (addEntity e w) = entities w @ [e]"
    and S: "systems (addEntity e w) = systems w"
    by (simp_all add: addEntity_as_fold attach_systems_effect)
  have C: "ent_systems (entity_heap (addEntity e w) x) =
             (if x = e then filter ?T (systems w) else ent_systems (entity_heap w x))" for x
    using ce by (simp add: addEntity_as_fold attach_systems_effect)
  have T: "sys_entities (system_heap (addEntity e w) s) =
             sys_entities (system_heap w s) @ (if s \<in> set (systems w) \<and> ?T s then [e] else [])" for s
    by (simp add: addEntity_as_fold attach_systems_effect length_filter_distinct[OF ds])
  show ?thesis
    unfolding coherent_def E S C T
    using ds de sub dc dt sym unl unu fresh nt by auto
qed

lemma coherent_addSystem:
  assumes c: "coherent U w" and fresh: "s \<notin> U"
  shows "coherent (insert s U) (addSystem s w)"
proof -
  let ?w2 = "w\<lparr>systems := systems w @ [s], trace := trace w @ [SystemInitialize s]\<rparr>"
  let ?T = "\<lambda>e. System_test s e ?w2"
  from c have ds: "distinct (systems w)" and de: "distinct (entities w)"
    and sub: "set (systems w) \<subseteq> U"
    and dc: "\<And>x. distinct (ent_systems (entity_heap w x))"
    and dt: "\<And>s. distinct (sys_entities (system_heap w s))"
    and sym: "\<And>x s. s \<in> set (ent_systems (entity_heap w x)) \<longleftrightarrow> x \<in> set (sys_entities (system_heap w s))"
    and unl: "\<And>x. x \<notin> set (entities w) \<Longrightarrow> ent_systems (entity_heap w x) = []"
    and unu: "\<And>s. s \<notin> U \<Longrightarrow> sys_entities (system_heap w s) = []"
    by (simp_all add: coherent_def)
  have ts: "sys_entities (system_heap w s) = []" using unu fresh by simp
  have nc: "s \<notin> set (ent_systems (entity_heap w x))" for x
    using sym[of s x] ts by simp
  have ns: "s \<notin> set (systems w)" using sub fresh by blast
  have E: "entities (addSystem s w) = entities w"
    and S: "systems (addSystem s w) = systems w @ [s]"
    by (simp_all add: addSystem_as_fold attach_entities_effect)
  have T: "sys_entities (system_heap (addSystem s w) y) =
             (if y = s then filter ?T (entities w) else sys_entities (system_heap w y))" for y
    using ts by (simp add: addSystem_as_fold attach_entities_effect)
  have C: "ent_systems (entity_heap (addSystem s w) x) =
             ent_systems (entity_heap w x) @ (if x \<in> set (entities w) \<and> ?T x then [s] else [])" for x
    by (simp add: addSystem_as_fold attach_entities_effect length_filter_distinct[OF de])
  show ?thesis
    unfolding coherent_def E S C T
    using ds de sub dc dt sym unl unu fresh nc ns by auto
qed

lemma System_removeEntity_effect:
  assumes "distinct (sys_entities (system_heap w s'))"
  shows "entity_heap (System_removeEntity s e w) = entity_heap w"
    and "distinct (sys_entities (system_heap (System_removeEntity s e w) s'))"
    and "set (sys_entities (system_heap (System_removeEntity s e w) s')) =
           (if s' = s then set (sys_entities (system_heap w s')) - {e}
            else set (sys_entities (system_heap w s')))"
proof -
  show "entity_heap (System_removeEntity s e w) = entity_heap w"
    by (simp add: System_removeEntity_def Let_def)
  let ?xs = "sys_entities (system_heap w s)"
  show "distinct (sys_entities (system_heap (System_removeEntity s e w) s'))"
    and "set (sys_entities (system_heap (System_removeEntity s e w) s')) =
           (if s' = s then set (sys_entities (system_heap w s')) - {e}
            else set (sys_entities (system_heap w s')))"
  proof -
    have both: "distinct (sys_entities (system_heap (System_removeEntity s e w) s')) \<and>
       set (sys_entities (system_heap (System_removeEntity s e w) s')) =
           (if s' = s then set (sys_entities (system_heap w s')) - {e}
            else set (sys_entities (system_heap w s')))"
    proof (cases "s' = s")
      case False
      then show ?thesis using assms by (simp add: System_removeEntity_def Let_def)
    next
      case True
      show ?thesis
      proof (cases "e \<in> set ?xs")
        case False
        then show ?thesis using assms True
          by (simp add: System_removeEntity_def Let_def indexOf_absent)
      next
        case mem: True
        let ?i = "nat (indexOf ?xs e)"
        from indexOf_present[OF mem] have i: "?i < length ?xs" "?xs ! ?i = e" by blast+
        have ne: "indexOf ?xs e \<noteq> - 1" using mem by (simp add: indexOf_absent)
        from assms True have d: "distinct ?xs" by simp
        from fastSplice_distinct[OF d i(1)] i(2) ne True show ?thesis
          by (simp add: System_removeEntity_def Let_def)
      qed
    qed
    from both show "distinct (sys_entities (system_heap (System_removeEntity s e w) s'))" ..
    from both show "set (sys_entities (system_heap (System_removeEntity s e w) s')) =
           (if s' = s then set (sys_entities (system_heap w s')) - {e}
            else set (sys_entities (system_heap w s')))" ..
  qed
qed

lemma detach_fold_effect:
  assumes "\<forall>s. distinct (sys_entities (system_heap w s))"
  shows "entity_heap (fold (\<lambda>s. System_removeEntity s e) ss w) = entity_heap w \<and>
     (\<forall>s. distinct (sys_entities (system_heap (fold (\<lambda>s. System_removeEntity s e) ss w) s))) \<and>
     (\<forall>s. set (sys_entities (system_heap (fold (\<lambda>s. System_removeEntity s e) ss w) s)) =
           (if s \<in> set ss then set (sys_entities (system_heap w s)) - {e}
            else set (sys_entities (system_heap w s))))"
  using assms
proof (induction ss arbitrary: w)
  case Nil
  then show ?case by simp
next
  case (Cons a ss)
  let ?w1 = "System_removeEntity a e w"
  have d1: "\<forall>s. distinct (sys_entities (system_heap ?w1 s))"
    using Cons.prems by (simp add: System_removeEntity_effect(2))
  have s1: "set (sys_entities (system_heap ?w1 s)) =
           (if s = a then set (sys_entities (system_heap w s)) - {e}
            else set (sys_entities (system_heap w s)))" for s
    using Cons.prems by (simp add: System_removeEntity_effect(3))
  have h1: "entity_heap ?w1 = entity_heap w"
    by (simp add: System_removeEntity_def Let_def)
  from Cons.IH[OF d1] show ?case
    by (auto simp: s1 h1)
qed

lemma coherent_removeEntity:
  assumes c: "coherent U w"
  shows "coherent U (snd (removeEntity e w))"
proof (cases "e \<in> set (entities w)")
  case False
  then show ?thesis using c by (simp add: removeEntity_def indexOf_absent)
next
  case True
  from c have ds: "distinct (systems w)" and de: "distinct (entities w)"
    and sub: "set (systems w) \<subseteq> U"
    and dc: "\<And>x. distinct (ent_systems (entity_heap w x))"
    and dt: "\<forall>s. distinct (sys_entities (system_heap w s))"
    and sym: "\<And>x s. s \<in> set (ent_systems (entity_heap w x)) \<longleftrightarrow> x \<in> set (sys_entities (system_heap w s))"
    and unl: "\<And>x. x \<notin> set (entities w) \<Longrightarrow> ent_systems (entity_heap w x) = []"
    and unu: "\<And>s. s \<notin> U \<Longrightarrow> sys_entities (system_heap w s) = []"
    by (simp_all add: coherent_def)
  let ?i = "nat (indexOf (entities w) e)"
  let ?w0 = "w\<lparr>trace := trace w @ [EntityDispose e (entities w)]\<rparr>"
  let ?w1 = "fold (\<lambda>s. System_removeEntity s e) (ent_systems (entity_heap w e)) ?w0"
  from indexOf_present[OF True] have i: "?i < length (entities w)" "entities w ! ?i = e" by blast+
  have ne: "indexOf (entities w) e \<noteq> - 1" using True by (simp add: indexOf_absent)
  note f = fastSplice_distinct[OF de i(1)]
  have dt0: "\<forall>s. distinct (sys_entities (system_heap ?w0 s))" using dt by simp
  note df = detach_fold_effect[OF dt0, of e "ent_systems (entity_heap w e)"]
  let ?r = "snd (removeEntity e w)"
  have E: "entities ?r = fastSplice (entities w) ?i"
    and S: "systems ?r = systems w"
    using ne by (simp_all add: removeEntity_def Entity_dispose_def Let_def detach_fold_fields)
  have C: "ent_systems (entity_heap ?r x) = (if x = e then [] else ent_systems (entity_heap w x))" for x
    using ne df by (simp add: removeEntity_def Entity_dispose_def Let_def)
  have T1: "distinct (sys_entities (system_heap ?r s))" for s
    using ne df by (simp add: removeEntity_def Entity_dispose_def Let_def)
  have T2: "set (sys_entities (system_heap ?r s)) = set (sys_entities (system_heap w s)) - {e}" for s
  proof -
    have "set (sys_entities (system_heap ?r s)) =
           (if s \<in> set (ent_systems (entity_heap w e)) then set (sys_entities (system_heap w s)) - {e}
            else set (sys_entities (system_heap w s)))"
      using ne df by (simp add: removeEntity_def Entity_dispose_def Let_def)
    then show ?thesis using sym[of s e] by auto
  qed
  have T3: "sys_entities (system_heap ?r s) = []" if "s \<notin> U" for s
  proof -
    from unu[OF that] T2[of s] show ?thesis by simp
  qed
  show ?thesis
    unfolding coherent_def E S C
    using ds sub dc T1 T2 T3 f i(2) sym unl by auto
qed

lemma built_coherent: "built U w \<Longrightarrow> coherent U w"
proof (induction rule: built.induct)
  case (constructed options now eh sh w0)
  then show ?case by (rule coherent_fresh)
next
  case (entity_added U w e)
  then show ?case by (simp add: coherent_addEntity)
next
  case (entity_removed U w e)
  then show ?case by (simp add: coherent_removeEntity)
next
  case (system_added U w s)
  then show ?case by (simp add: coherent_addSystem)
next
  case (system_removed U w s)
  then show ?case by (simp add: coherent_removeSystem)
next
  case (ticked U w upd now w')
  from update_quiet[OF ticked(2), of now w] ticked(3) have "same_lists w w'" by auto
  with ticked(4) show ?case by (rule coherent_same_lists)
qed

lemma built_data_model:
  assumes "built U w"
  shows "no_duplicates w" and "tracked_are_cached w"
  using coherent_data_model[OF built_coherent[OF assms]] by blast+

lemma built_mirrored: "built U w \<Longrightarrow> U \<subseteq> set (systems w) \<Longrightarrow> mirrored w"
  using coherent_mirrored[OF built_coherent] by blast

lemma example_world_is_built: "built {1, 2, 3} example_world"
proof -
  have e: "\<forall>e. ent_systems (example_entities e) = []" by (simp add: example_entities_def)
  have s: "\<forall>s. sys_entities (example_systems s) = []" by (simp add: example_systems_def)
  note b0 = built.constructed[OF example_fresh_built e s]
  have b1: "built {1} (addSystem 1 example_fresh)"
    using built.system_added[OF b0, of 1] by simp
  have b2: "built {1, 2} (addSystem 2 (addSystem 1 example_fresh))"
    using built.system_added[OF b1, of 2] by (simp add: insert_commute)
  have b3: "built {1, 2, 3} (addSystem 3 (addSystem 2 (addSystem 1 example_fresh)))"
    using built.system_added[OF b2, of 3] by (simp add: insert_commute)
  have n1: "1 \<notin> set (entities (addSystem 3 (addSystem 2 (addSystem 1 example_fresh))))"
    by (simp add: addSystem_as_fold attach_entities_effect example_fresh_def)
  note b4 = built.entity_added[OF b3 n1]
  have n2: "2 \<notin> set (entities (addEntity 1 (addSystem 3 (addSystem 2 (addSystem 1 example_fresh)))))"
    by (simp add: addEntity_as_fold addSystem_as_fold attach_entities_effect attach_systems_effect
        example_fresh_def)
  note b5 = built.entity_added[OF b4 n2]
  from b5 example_world_built show ?thesis by simp
qed

text \<open>What a tick with quiet callbacks keeps, and what it counts.\<close>

lemma tick_keeps:
  assumes "quiet upd" and "update upd now w = Some w'"
  shows "systems w' = systems w"
    and "sys_entities (system_heap w' s) = sys_entities (system_heap w s)"
    and "sys_frequency (system_heap w' s) = sys_frequency (system_heap w s)"
    and "sys_enable (system_heap w' s) = sys_enable (system_heap w s)"
    and "updateCounter w' = updateCounter w + 1"
  using update_quiet[OF assms(1), of now w] assms(2) by (auto simp: same_lists_def)

text \<open>The calls of a tick with quiet callbacks, and the world with system 2 added again.\<close>

lemma calls_by_quiet:
  "quiet upd \<Longrightarrow> calls_by upd now w s e =
     Some (calls s e (if truthy (systemsFirst w) then systems_first_calls w (now - lastUpdate w)
                    else entities_first_calls w (now - lastUpdate w)))"
  using update_quiet[of upd now w] by (auto simp: calls_by_def dest: emitted_append)

lemma readded_fields:
  "systemsFirst readded_world = JBool False"
  "entities readded_world = [1, 2]"
  "systems readded_world = [1, 3, 2]"
  "updateCounter readded_world = 0"
  "sys_entities (system_heap readded_world 2) = [2, 2]"
  "ent_systems (entity_heap readded_world 2) = [1, 2, 3, 2]"
  "sys_frequency (system_heap readded_world 2) = 1"
  "sys_enable (system_heap readded_world 2)"
  by (simp_all add: readded_world_def removeSystem_def fastSplice_def System_dispose_def
      addSystem_def addSystem_loop_fold System_initialize_def System_test_def System_addEntity_def
      example_world_def example_entities_def example_systems_def Let_def)

lemma structure_preserving_switch_off: "structure_preserving switch_off"
  by (simp add: structure_preserving_def same_lists_def switch_off_def)

section \<open>The claims\<close>

subsection \<open>C1: frequency gating\<close>

text \<open>
  C1, amended. Let \<open>s\<close> be a registered system with a positive frequency \<open>n\<close> and \<open>enable\<close>
  true, and \<open>e\<close> an entity that \<open>s\<close> tracks, in a world where no list holds an element twice
  and where what a listed system tracks is a listed entity that has the system in its
  cache; and let the callbacks be quiet: they change no entity list, system list,
  membership cache or tracked list, and no frequency, enable flag or tick counter. Then a
  call of \<open>update()\<close> returns and invokes \<open>s.update\<close> on \<open>e\<close> exactly once when the tick
  counter is divisible by \<open>n\<close>, and not at all otherwise. The world \<open>w\<close> is any such world,
  so the tick at which \<open>s\<close> was registered plays no part. Every world that the class
  builds without a second registration satisfies the two conditions on the world
  (\<open>built_data_model\<close>).
\<close>

theorem frequency_gating:
  assumes q: "quiet upd"
    and nd: "no_duplicates w"
    and mi: "tracked_are_cached w"
    and reg: "s \<in> set (systems w)"
    and tracked: "e \<in> set (sys_entities (system_heap w s))"
    and freq: "0 < sys_frequency (system_heap w s)"
    and en: "sys_enable (system_heap w s)"
  shows "\<exists>w'. update upd now w = Some w' \<and>
     calls s e (emitted w w') =
       (if int (updateCounter w) mod sys_frequency (system_heap w s) = 0 then 1 else 0)"
proof -
  from update_quiet[OF q, of now w] obtain w' where
    ret: "update upd now w = Some w'" and
    tr: "trace w' = trace w @ (if truthy (systemsFirst w)
                           then systems_first_calls w (now - lastUpdate w)
                           else entities_first_calls w (now - lastUpdate w))"
    by blast
  have em: "emitted w w' = (if truthy (systemsFirst w)
                           then systems_first_calls w (now - lastUpdate w)
                           else entities_first_calls w (now - lastUpdate w))"
    using tr by (rule emitted_append)
  have e_in: "e \<in> set (entities w)" and s_in: "s \<in> set (ent_systems (entity_heap w e))"
    using tracked_are_cached_edge[OF mi reg tracked] by blast+
  note c1 = no_duplicates_counts(1)[OF nd reg]
  note c2 = no_duplicates_counts(2)[OF nd reg tracked]
  note c3 = no_duplicates_counts(3)[OF nd e_in]
  note c4 = no_duplicates_counts(4)[OF nd e_in s_in]
  have "calls s e (emitted w w') = (if skips w s then 0 else 1)"
    by (simp add: em calls_entities_first calls_systems_first c1 c2 c3 c4)
  then show ?thesis using ret skips_positive[OF freq en] by auto
qed

text \<open>
  C1, amended, at the example scenario of the spec (section 8): system 1 has frequency 2 and tracks
  entity 1. Three ticks in a row, at the counters 0, 1 and 2, call it on entity 1 once, not
  at all, and once.
\<close>

theorem frequency_gating_witness:
  "quiet move \<and> no_duplicates example_world \<and> tracked_are_cached example_world \<and>
   1 \<in> set (systems example_world) \<and>
   1 \<in> set (sys_entities (system_heap example_world 1)) \<and>
   sys_frequency (system_heap example_world 1) = 2 \<and>
   sys_enable (system_heap example_world 1) \<and>
   updateCounter example_world = 0 \<and>
   (\<exists>w1 w2 w3.
      update move 15 example_world = Some w1 \<and> calls 1 1 (emitted example_world w1) = 1 \<and>
      update move 20 w1 = Some w2 \<and> calls 1 1 (emitted w1 w2) = 0 \<and>
      update move 25 w2 = Some w3 \<and> calls 1 1 (emitted w2 w3) = 1)"
proof -
  note q = quiet_move
  note b0 = example_world_is_built
  have r0: "1 \<in> set (systems example_world)"
    and t0: "1 \<in> set (sys_entities (system_heap example_world 1))"
    and f0: "sys_frequency (system_heap example_world 1) = 2"
    and e0: "sys_enable (system_heap example_world 1)"
    and c0: "updateCounter example_world = 0"
    by (simp_all add: example_world_def example_systems_def)
  have p0: "0 < sys_frequency (system_heap example_world 1)" using f0 by simp
  from frequency_gating[OF q built_data_model[OF b0] r0 t0 p0 e0, of 15] obtain w1 where
    u1: "update move 15 example_world = Some w1" and
    g1: "calls 1 1 (emitted example_world w1) =
      (if int (updateCounter example_world) mod sys_frequency (system_heap example_world 1) = 0 then 1 else 0)"
    by blast
  have k1: "calls 1 1 (emitted example_world w1) = 1"
    unfolding g1 f0 c0 by simp
  note b1 = built.ticked[OF b0 q u1]
  note s1 = tick_keeps[OF q u1]
  have r1: "1 \<in> set (systems w1)" and t1: "1 \<in> set (sys_entities (system_heap w1 1))"
    and f1: "sys_frequency (system_heap w1 1) = 2" and e1: "sys_enable (system_heap w1 1)"
    and c1: "updateCounter w1 = 1"
    using r0 t0 f0 e0 c0 by (simp_all add: s1)
  have p1: "0 < sys_frequency (system_heap w1 1)" using f1 by simp
  from frequency_gating[OF q built_data_model[OF b1] r1 t1 p1 e1, of 20] obtain w2 where
    u2: "update move 20 w1 = Some w2" and
    g2: "calls 1 1 (emitted w1 w2) =
      (if int (updateCounter w1) mod sys_frequency (system_heap w1 1) = 0 then 1 else 0)"
    by blast
  have k2: "calls 1 1 (emitted w1 w2) = 0"
    unfolding g2 f1 c1 by simp
  note b2 = built.ticked[OF b1 q u2]
  note s2 = tick_keeps[OF q u2]
  have r2: "1 \<in> set (systems w2)" and t2: "1 \<in> set (sys_entities (system_heap w2 1))"
    and f2: "sys_frequency (system_heap w2 1) = 2" and e2: "sys_enable (system_heap w2 1)"
    and c2: "updateCounter w2 = 2"
    using r1 t1 f1 e1 c1 by (simp_all add: s2)
  have p2: "0 < sys_frequency (system_heap w2 1)" using f2 by simp
  from frequency_gating[OF q built_data_model[OF b2] r2 t2 p2 e2, of 25] obtain w3 where
    u3: "update move 25 w2 = Some w3" and
    g3: "calls 1 1 (emitted w2 w3) =
      (if int (updateCounter w2) mod sys_frequency (system_heap w2 1) = 0 then 1 else 0)"
    by blast
  have k3: "calls 1 1 (emitted w2 w3) = 1"
    unfolding g3 f2 c2 by simp
  from u1 k1 u2 k2 u3 k3 have
    "\<exists>w1 w2 w3.
      update move 15 example_world = Some w1 \<and> calls 1 1 (emitted example_world w1) = 1 \<and>
      update move 20 w1 = Some w2 \<and> calls 1 1 (emitted w1 w2) = 0 \<and>
      update move 25 w2 = Some w3 \<and> calls 1 1 (emitted w2 w3) = 1" by blast
  with q built_data_model[OF b0] r0 t0 f0 e0 c0 show ?thesis by blast
qed

text \<open>
  C1 as stated fails; in each case below the system is listed, enabled, tracks the entity,
  and its frequency divides the counter (\<open>due\<close>). With a list that holds an element twice:
  after \<open>removeSystem\<close> and \<open>addSystem\<close> of system 2, which tracks entity 2 twice, a tick
  calls it on entity 2 twice, under either traversal; after a second \<open>addEntity\<close> of entity
  1, a tick calls system 1 on it four times. With a callback that is not quiet: when
  system 1 disables system 2 during the tick, system 2 is not called on entity 2; when
  system 1 removes entity 2 during the tick, system 1 is not called on entity 2. With a
  tracked entity that is not listed, the entities-first traversal never reaches it.
\<close>

theorem frequency_gating_counterexample:
  "due readded_world 2 2 \<and>
   calls_by move 15 readded_world 2 2 = Some 2 \<and>
   calls_by move 15 (readded_world\<lparr>systemsFirst := JBool True\<rparr>) 2 2 = Some 2 \<and>
   due (addEntity 1 example_world) 1 1 \<and>
   calls_by move 15 (addEntity 1 example_world) 1 1 = Some 4 \<and>
   due example_world 2 2 \<and>
   calls_by switch_off 15 example_world 2 2 = Some 0 \<and>
   due example_world 1 2 \<and>
   calls_by evict 15 example_world 1 2 = Some 0 \<and>
   due unlisted_world 1 2 \<and>
   calls_by move 15 unlisted_world 1 2 = Some 0"
proof -
  have a0: "due readded_world 2 2"
    by (simp add: due_def readded_fields)
  have a: "calls_by move 15 readded_world 2 2 = Some 2"
    by (simp add: calls_by_quiet quiet_move calls_entities_first readded_fields skips_def
        js_rem_def js_gt0_def)
  have b: "calls_by move 15 (readded_world\<lparr>systemsFirst := JBool True\<rparr>) 2 2 = Some 2"
    by (simp add: calls_by_quiet quiet_move calls_systems_first readded_fields skips_def
        js_rem_def js_gt0_def)
  have dbl: "entities (addEntity 1 example_world) = [1, 2, 1]"
    "systems (addEntity 1 example_world) = [1, 2, 3]"
    "ent_systems (entity_heap (addEntity 1 example_world) 1) = [1, 3, 1, 3]"
    "sys_entities (system_heap (addEntity 1 example_world) 1) = [1, 2, 1]"
    "sys_frequency (system_heap (addEntity 1 example_world) 1) = 2"
    "sys_enable (system_heap (addEntity 1 example_world) 1)"
    "updateCounter (addEntity 1 example_world) = 0"
    "systemsFirst (addEntity 1 example_world) = JBool False"
    by (simp_all add: addEntity_def addEntity_loop_fold System_test_def System_addEntity_def
        example_world_def example_entities_def example_systems_def Let_def)
  have p0: "due (addEntity 1 example_world) 1 1"
    using dbl by (simp add: due_def)
  have p: "calls_by move 15 (addEntity 1 example_world) 1 1 = Some 4"
    using dbl by (simp add: calls_by_quiet quiet_move calls_entities_first skips_def
        js_rem_def js_gt0_def)
  have c0: "due example_world 2 2" "due example_world 1 2"
    by (simp_all add: due_def example_world_def example_systems_def)
  have c: "calls_by switch_off 15 example_world 2 2 = Some 0"
    by (simp add: calls_by_def update_def updateEntities_def updateEntities_outer.simps
        updateEntities_inner.simps System_update_def switch_off_def emitted_def calls_def
        visits_def skips_def js_rem_def js_gt0_def example_world_def example_systems_def Let_def)
  have d: "calls_by evict 15 example_world 1 2 = Some 0"
    by (simp add: calls_by_def update_def updateEntities_def updateEntities_outer.simps
        updateEntities_inner.simps System_update_def evict_def removeEntity_def Entity_dispose_def
        System_removeEntity_def fastSplice_def emitted_def calls_def
        visits_def skips_def js_rem_def js_gt0_def example_world_def example_systems_def Let_def)
  have e0: "due unlisted_world 1 2"
    by (simp add: due_def unlisted_world_def example_world_def example_systems_def)
  have e: "calls_by move 15 unlisted_world 1 2 = Some 0"
    by (simp add: calls_by_quiet quiet_move calls_entities_first unlisted_world_def skips_def
        js_rem_def js_gt0_def example_world_def example_systems_def)
  from a0 a b p0 p c0 c d e0 e show ?thesis by blast
qed

subsection \<open>C2: the two traversals visit the same pairs\<close>

text \<open>
  C2, amended. Let the membership caches of \<open>w\<close> mirror its tracked lists, as they do in
  every world that the class builds without removing a system (\<open>built_mirrored\<close>), and let
  the callbacks be quiet: they change no entity list, system list, membership cache or tracked
  list, and no frequency, enable flag or tick counter either. Then \<open>update()\<close> returns under
  both traversal modes, and the set of (entity, system) pairs on which it invokes
  \<open>system.update\<close> is the same whether \<open>systemsFirst\<close> is truthy or falsy.
\<close>

theorem dual_traversal:
  assumes q: "quiet upd" and mi: "mirrored w"
    and a: "truthy a" and b: "\<not> truthy b"
  shows "\<exists>w1 w2. update upd now (w\<lparr>systemsFirst := a\<rparr>) = Some w1 \<and>
                 update upd now (w\<lparr>systemsFirst := b\<rparr>) = Some w2 \<and>
                 visited (emitted (w\<lparr>systemsFirst := a\<rparr>) w1) = visited (emitted (w\<lparr>systemsFirst := b\<rparr>) w2)"
proof -
  let ?wa = "w\<lparr>systemsFirst := a\<rparr>" and ?wb = "w\<lparr>systemsFirst := b\<rparr>"
  from update_quiet[OF q, of now ?wa] a obtain w1 where
    r1: "update upd now ?wa = Some w1" and
    t1: "trace w1 = trace ?wa @ systems_first_calls ?wa (now - lastUpdate ?wa)" by auto
  from update_quiet[OF q, of now ?wb] b obtain w2 where
    r2: "update upd now ?wb = Some w2" and
    t2: "trace w2 = trace ?wb @ entities_first_calls ?wb (now - lastUpdate ?wb)" by auto
  have "visited (systems_first_calls ?wa el) = visited (entities_first_calls ?wb el')" for el el'
    using mirrored_pairs[OF mi] by (simp add: visited_entities_first visited_systems_first)
  then show ?thesis using r1 r2 emitted_append[OF t1] emitted_append[OF t2] by simp
qed

text \<open>C2, amended, at the example world with the callback \<open>move\<close>.\<close>

theorem dual_traversal_witness:
  "quiet move \<and> mirrored example_world \<and> truthy (JBool True) \<and> \<not> truthy JUndefined \<and>
   (\<exists>w1 w2. update move 15 (example_world\<lparr>systemsFirst := JBool True\<rparr>) = Some w1 \<and>
            update move 15 (example_world\<lparr>systemsFirst := JUndefined\<rparr>) = Some w2 \<and>
            visited (emitted (example_world\<lparr>systemsFirst := JBool True\<rparr>) w1)
              = visited (emitted (example_world\<lparr>systemsFirst := JUndefined\<rparr>) w2))"
  using dual_traversal[OF quiet_move mirrored_example, of "JBool True" JUndefined 15]
    quiet_move mirrored_example
  by simp

text \<open>
  C2 as stated fails, in two ways. First, in the world left by \<open>removeSystem\<close> of system 2,
  with the callback \<open>move\<close>, which mutates no list at all: the entities-first traversal
  still calls system 2 on entity 2, through the cache of entity 2, and the systems-first
  traversal does not. Second, in the example world with the callback \<open>wake_up\<close>, which
  mutates no list and no cache but sets an enable flag: the systems-first traversal calls
  system 3 on entity 1, the entities-first traversal has passed entity 1 by then.
\<close>

theorem dual_traversal_counterexample:
  "structure_preserving move \<and>
   visited_by move 15 (dangling_world\<lparr>systemsFirst := JBool True\<rparr>) = Some {(1, 1), (2, 1)} \<and>
   visited_by move 15 (dangling_world\<lparr>systemsFirst := JBool False\<rparr>)
     = Some {(1, 1), (2, 1), (2, 2)} \<and>
   visited_by move 15 (dangling_world\<lparr>systemsFirst := JBool True\<rparr>)
     \<noteq> visited_by move 15 (dangling_world\<lparr>systemsFirst := JBool False\<rparr>) \<and>
   structure_preserving wake_up \<and>
   visited_by wake_up 15 (example_world\<lparr>systemsFirst := JBool True\<rparr>)
     = Some {(1, 1), (2, 1), (2, 2), (1, 3), (2, 3)} \<and>
   visited_by wake_up 15 (example_world\<lparr>systemsFirst := JBool False\<rparr>)
     = Some {(1, 1), (2, 1), (2, 2), (2, 3)} \<and>
   visited_by wake_up 15 (example_world\<lparr>systemsFirst := JBool True\<rparr>)
     \<noteq> visited_by wake_up 15 (example_world\<lparr>systemsFirst := JBool False\<rparr>)"
proof -
  have a: "visited_by move 15 (dangling_world\<lparr>systemsFirst := JBool True\<rparr>)
             = Some {(1, 1), (2, 1)}"
    by (simp add: visited_by_quiet quiet_move visited_def visits_systems_first skips_def
        js_rem_def js_gt0_def dangling_world_def removeSystem_def fastSplice_def
        System_dispose_def example_world_def example_systems_def Let_def)
  have b: "visited_by move 15 (dangling_world\<lparr>systemsFirst := JBool False\<rparr>)
             = Some {(1, 1), (2, 1), (2, 2)}"
    by (simp add: visited_by_quiet quiet_move visited_def visits_entities_first skips_def
        js_rem_def js_gt0_def dangling_world_def removeSystem_def fastSplice_def
        System_dispose_def example_world_def example_systems_def Let_def insert_commute)
  have c: "visited_by wake_up 15 (example_world\<lparr>systemsFirst := JBool True\<rparr>)
             = Some {(1, 1), (2, 1), (2, 2), (1, 3), (2, 3)}"
    by (simp add: visited_by_def update_def updateSystems_def updateSystems_outer.simps
        updateSystems_inner.simps System_update_def wake_up_def emitted_def visited_def
        visits_def skips_def js_rem_def js_gt0_def example_world_def example_systems_def
        Let_def insert_commute)
  have d: "visited_by wake_up 15 (example_world\<lparr>systemsFirst := JBool False\<rparr>)
             = Some {(1, 1), (2, 1), (2, 2), (2, 3)}"
    by (simp add: visited_by_def update_def updateEntities_def updateEntities_outer.simps
        updateEntities_inner.simps System_update_def wake_up_def emitted_def visited_def
        visits_def skips_def js_rem_def js_gt0_def example_world_def example_systems_def
        Let_def insert_commute)
  have ab: "{(1::nat, 1::nat), (2, 1)} \<noteq> {(1, 1), (2, 1), (2, 2)}"
  proof
    assume "{(1::nat, 1::nat), (2, 1)} = {(1, 1), (2, 1), (2, 2)}"
    then have "(2::nat, 2::nat) \<in> {(1, 1), (2, 1)}" by simp
    then show False by simp
  qed
  have cd: "{(1::nat, 1::nat), (2, 1), (2, 2), (1, 3), (2, 3)}
              \<noteq> {(1, 1), (2, 1), (2, 2), (2, 3)}"
  proof
    assume "{(1::nat, 1::nat), (2, 1), (2, 2), (1, 3), (2, 3)} = {(1, 1), (2, 1), (2, 2), (2, 3)}"
    then have "(1::nat, 3::nat) \<in> {(1, 1), (2, 1), (2, 2), (2, 3)}" by blast
    then show False by simp
  qed
  have sm: "structure_preserving move"
    by (rule quiet_structure_preserving[OF quiet_move])
  show ?thesis
    unfolding a b c d using ab cd sm structure_preserving_wake_up by simp
qed

subsection \<open>C3: adding an entity that is already registered\<close>

text \<open>
  C3, amended. \<open>addEntity(e)\<close> has no guard against an entity that is already present. For
  every entity \<open>e\<close>, present or not, it appends \<open>e\<close> to the entity list, sets the
  back-reference of \<open>e\<close>, and attaches \<open>e\<close> to every listed system whose test accepts it:
  the cache of \<open>e\<close> grows by those systems, and the tracked list of each of them grows by
  \<open>e\<close>, once for every time the system is listed. It makes no call of an update,
  initialize or dispose hook and changes no other cache and no other list.
\<close>

theorem addEntity_effect:
  "entities (addEntity e w) = entities w @ [e] \<and>
   systems (addEntity e w) = systems w \<and>
   trace (addEntity e w) = trace w \<and>
   ent_ecs (entity_heap (addEntity e w) e) = ThisEcs \<and>
   ent_systems (entity_heap (addEntity e w) e) =
     ent_systems (entity_heap w e) @ filter (\<lambda>s. System_test s e w) (systems w) \<and>
   (\<forall>e'. e' \<noteq> e \<longrightarrow>
      ent_systems (entity_heap (addEntity e w) e') = ent_systems (entity_heap w e')) \<and>
   (\<forall>s. sys_entities (system_heap (addEntity e w) s) =
      sys_entities (system_heap w s) @
      replicate (length (filter (\<lambda>x. x = s \<and> System_test x e w) (systems w))) e)"
proof -
  let ?w2 = "w\<lparr>entities := entities w @ [e],
               entity_heap := (entity_heap w)(e := (entity_heap w e)\<lparr>ent_ecs := ThisEcs\<rparr>)\<rparr>"
  have a: "addEntity e w =
     fold (\<lambda>s w. if System_test s e w then System_addEntity s e w else w) (systems w) ?w2"
    by (simp add: addEntity_def addEntity_loop_fold Let_def)
  have t: "System_test s e ?w2 = System_test s e w" for s
    by (simp add: System_test_def)
  show ?thesis
    unfolding a by (simp add: attach_systems_effect t)
qed

text \<open>
  C3, amended, at the example world and entity 1, which is already registered: the entity
  list, the cache of entity 1 and the tracked lists of the systems 1 and 3 each get a second
  entry; the cache of entity 2 and the tracked list of system 2 stay as they are.
\<close>

theorem addEntity_effect_witness:
  "1 \<in> set (entities example_world) \<and> (2::nat) \<noteq> 1 \<and>
   entities (addEntity 1 example_world) = [1, 2, 1] \<and>
   ent_systems (entity_heap (addEntity 1 example_world) 1) = [1, 3, 1, 3] \<and>
   ent_systems (entity_heap (addEntity 1 example_world) 2) = [1, 2, 3] \<and>
   sys_entities (system_heap (addEntity 1 example_world) 1) = [1, 2, 1] \<and>
   sys_entities (system_heap (addEntity 1 example_world) 2) = [2] \<and>
   sys_entities (system_heap (addEntity 1 example_world) 3) = [1, 2, 1]"
  using addEntity_effect[of 1 example_world]
  by (simp add: System_test_def example_world_def example_entities_def example_systems_def)

text \<open>
  C3 as stated fails: entity 1 is in the entity list of the example world, and a second
  \<open>addEntity(1)\<close> changes the entity list, the cache of entity 1 and the tracked list of
  system 1.
\<close>

theorem addEntity_effect_counterexample:
  "1 \<in> set (entities example_world) \<and>
   entities (addEntity 1 example_world) \<noteq> entities example_world \<and>
   ent_systems (entity_heap (addEntity 1 example_world) 1)
     \<noteq> ent_systems (entity_heap example_world 1) \<and>
   sys_entities (system_heap (addEntity 1 example_world) 1)
     \<noteq> sys_entities (system_heap example_world 1)"
  by (simp add: addEntity_def addEntity_loop_fold System_test_def System_addEntity_def
      example_world_def example_entities_def example_systems_def Let_def)

subsection \<open>C4: removing a system that is not registered\<close>

text \<open>
  C4, amended. For a system \<open>s\<close> that is not in the system list, \<open>removeSystem(s)\<close> is a
  silent no-op: no hook is called, and the system list and the rest of the world are
  unchanged. The call returns \<open>undefined\<close>, not \<open>s\<close>: the method has no \<open>return\<close> statement.
\<close>

theorem removeSystem_absent:
  "system \<notin> set (systems w) \<Longrightarrow>
     removeSystem system w = (ReturnsUndefined, w) \<and>
     systems (snd (removeSystem system w)) = systems w \<and>
     trace (snd (removeSystem system w)) = trace w"
  by (simp add: removeSystem_def indexOf_absent)

text \<open>C4, amended, at the example world, where system 7 is not registered.\<close>

theorem removeSystem_absent_witness:
  "7 \<notin> set (systems example_world) \<and>
   removeSystem 7 example_world = (ReturnsUndefined, example_world)"
  using removeSystem_absent[of 7 example_world] by (simp add: example_world_def)

text \<open>
  C4 as stated fails: system 7 is not registered in the example world, and the value that
  \<open>removeSystem(7)\<close> returns is not system 7.
\<close>

theorem removeSystem_absent_counterexample:
  "7 \<notin> set (systems example_world) \<and> fst (removeSystem 7 example_world) \<noteq> Returns 7"
  by (simp add: removeSystem_def example_world_def Let_def)

subsection \<open>C5: removing an entity that is not registered\<close>

text \<open>
  C5. For an entity \<open>e\<close> that is not in the entity list, \<open>removeEntity(e)\<close> returns \<open>e\<close> and
  leaves the world as it is: the disposal hook is not called (the trace is unchanged), and
  the entity list, the system list and every tracked list are unchanged.
\<close>

theorem removeEntity_absent:
  "entity \<notin> set (entities w) \<Longrightarrow>
     removeEntity entity w = (entity, w) \<and>
     fst (removeEntity entity w) = entity \<and>
     trace (snd (removeEntity entity w)) = trace w \<and>
     entities (snd (removeEntity entity w)) = entities w \<and>
     systems (snd (removeEntity entity w)) = systems w \<and>
     system_heap (snd (removeEntity entity w)) = system_heap w"
  by (simp add: removeEntity_def indexOf_absent)

text \<open>C5 at the example world, where entity 3 is not registered.\<close>

theorem removeEntity_absent_witness:
  "3 \<notin> set (entities example_world) \<and>
   removeEntity 3 example_world = (3, example_world)"
  using removeEntity_absent[of 3 example_world] by (simp add: example_world_def)

subsection \<open>C6: removing an entity that is registered\<close>

text \<open>
  C6. For an entity \<open>e\<close> in the entity list, \<open>removeEntity(e)\<close> returns \<open>e\<close>. It calls the
  disposal of \<open>e\<close> first: the record of the call carries the entity list that the hook
  finds, and that is the list before the call, with \<open>e\<close> still in it at its index. The
  disposal leaves the entity list alone. Only then \<open>e\<close> is removed, from the list left by
  the disposal, at the index of its first occurrence: the list is one shorter, the last
  element stands at that index, every other position before the last keeps its element,
  and the list has lost exactly one occurrence of \<open>e\<close>. A removal before the disposal
  would leave the shorter list in the record of the call.
\<close>

theorem removeEntity_present:
  assumes "e \<in> set (entities w)"
  shows "fst (removeEntity e w) = e \<and>
     trace (snd (removeEntity e w)) = trace w @ [EntityDispose e (entities w)] \<and>
     snd (removeEntity e w) =
       (Entity_dispose e w)\<lparr>entities := fastSplice (entities (Entity_dispose e w))
                                          (nat (indexOf (entities w) e))\<rparr> \<and>
     entities (Entity_dispose e w) = entities w \<and>
     nat (indexOf (entities w) e) < length (entities w) \<and>
     entities w ! nat (indexOf (entities w) e) = e \<and>
     (\<forall>j < nat (indexOf (entities w) e). entities w ! j \<noteq> e) \<and>
     entities (snd (removeEntity e w)) =
       butlast ((entities w)[nat (indexOf (entities w) e) := last (entities w)]) \<and>
     length (entities (snd (removeEntity e w))) = length (entities w) - 1 \<and>
     (\<forall>j < length (entities w) - 1.
        entities (snd (removeEntity e w)) ! j =
          (if j = nat (indexOf (entities w) e) then last (entities w) else entities w ! j)) \<and>
     mset (entities (snd (removeEntity e w))) = mset (entities w) - {#e#}"
proof -
  let ?i = "nat (indexOf (entities w) e)"
  let ?xs = "entities w"
  from indexOf_present[OF assms] have i: "?i < length ?xs" "?xs ! ?i = e"
    and first: "\<forall>j < ?i. ?xs ! j \<noteq> e"
    by blast+
  have ne: "indexOf ?xs e \<noteq> - 1" using assms by (simp add: indexOf_absent)
  have r: "removeEntity e w =
     (e, (Entity_dispose e w)\<lparr>entities := fastSplice (entities (Entity_dispose e w)) ?i\<rparr>)"
    using ne by (simp add: removeEntity_def Let_def)
  have f: "fastSplice ?xs ?i = butlast (?xs[?i := last ?xs])"
    using i(1) by (simp add: fastSplice_def)
  have m: "mset (fastSplice ?xs ?i) = mset ?xs - {#e#}"
    using fastSplice_mset[OF i(1)] i(2) by simp
  have F: "fst (removeEntity e w) = e" by (simp add: r)
  have D: "entities (Entity_dispose e w) = ?xs" by (simp add: Entity_dispose_fields)
  have E: "entities (snd (removeEntity e w)) = butlast (?xs[?i := last ?xs])"
    by (simp add: r Entity_dispose_fields f)
  have T: "trace (snd (removeEntity e w)) = trace w @ [EntityDispose e ?xs]"
    by (simp add: r Entity_dispose_fields)
  have S: "snd (removeEntity e w) =
       (Entity_dispose e w)\<lparr>entities := fastSplice (entities (Entity_dispose e w)) ?i\<rparr>"
    by (simp add: r)
  have L: "length (entities (snd (removeEntity e w))) = length ?xs - 1"
    by (simp add: E)
  have N: "\<forall>j < length ?xs - 1.
        entities (snd (removeEntity e w)) ! j = (if j = ?i then last ?xs else ?xs ! j)"
    by (simp add: E nth_butlast nth_list_update)
  have M: "mset (entities (snd (removeEntity e w))) = mset ?xs - {#e#}"
    unfolding E using m unfolding f .
  from F T S D i first E L N M show ?thesis by blast
qed

text \<open>
  C6 at the example world with entity 3 added: removing entity 1 from the list 1, 2, 3
  returns 1, records one disposal, called while the list was still 1, 2, 3, and leaves the
  list 3, 2.
\<close>

theorem removeEntity_present_witness:
  "1 \<in> set (entities (addEntity 3 example_world)) \<and>
   entities (addEntity 3 example_world) = [1, 2, 3] \<and>
   fst (removeEntity 1 (addEntity 3 example_world)) = 1 \<and>
   entities (snd (removeEntity 1 (addEntity 3 example_world))) = [3, 2] \<and>
   trace (snd (removeEntity 1 (addEntity 3 example_world)))
     = trace example_world @ [EntityDispose 1 [1, 2, 3]]"
proof -
  have e: "entities (addEntity 3 example_world) = [1, 2, 3]"
    "trace (addEntity 3 example_world) = trace example_world"
    by (simp_all add: addEntity_def addEntity_loop_fold attach_systems_effect example_world_def)
  have m: "1 \<in> set (entities (addEntity 3 example_world))" by (simp add: e)
  let ?w = "addEntity 3 example_world"
  from removeEntity_present[OF m] have
    f: "fst (removeEntity 1 ?w) = 1" and
    t: "trace (snd (removeEntity 1 ?w)) = trace ?w @ [EntityDispose 1 (entities ?w)]" and
    l: "entities (snd (removeEntity 1 ?w)) =
          butlast ((entities ?w)[nat (indexOf (entities ?w) 1) := last (entities ?w)])"
    by blast+
  from l have "entities (snd (removeEntity 1 ?w)) = [3, 2]" by (simp add: e)
  with f t m show ?thesis by (simp add: e)
qed

subsection \<open>C7: a disabled system is never updated\<close>



subsection \<open>C8: the tick counter\<close>



subsection \<open>C9: the argument of the constructor\<close>

text \<open>
  C9, amended. The constructor reads \<open>options.systemsFirst\<close> unconditionally, so it throws
  a TypeError exactly when its argument is \<open>undefined\<close> (no argument) or \<open>null\<close>. For every
  other argument, a number, a string or a boolean included, it returns a registry with
  empty lists, counter 0 and the clock reading as timestamp, whose mode is the property
  read, or \<open>false\<close> when that is falsy. When an options object is supplied whose
  \<open>systemsFirst\<close> is absent or falsy, the mode is \<open>false\<close> and \<open>update()\<close> is the entities-first
  traversal.
\<close>

theorem constructor_options:
  "(ECS options now eh sh = Inl TypeError \<longleftrightarrow> options = JUndefined \<or> options = JNull) \<and>
   (\<forall>v. get_systemsFirst options = Inr v \<longrightarrow>
      (\<exists>w. ECS options now eh sh = Inr w \<and> systemsFirst w = js_or v (JBool False) \<and>
           entities w = [] \<and> systems w = [] \<and> updateCounter w = 0 \<and> lastUpdate w = now)) \<and>
   (\<forall>props. options = JObject props \<longrightarrow>
      (map_of props ''systemsFirst'' = None \<or>
       (\<exists>v. map_of props ''systemsFirst'' = Some v \<and> \<not> truthy v)) \<longrightarrow>
      (\<exists>w. ECS options now eh sh = Inr w \<and> systemsFirst w = JBool False \<and>
           (\<forall>upd t. update upd t w = updateEntities upd t (t - lastUpdate w) w)))"
proof (intro conjI allI impI)
  show "(ECS options now eh sh = Inl TypeError) = (options = JUndefined \<or> options = JNull)"
    by (cases options) (simp_all add: ECS_def)
next
  fix v
  assume "get_systemsFirst options = Inr v"
  then show "\<exists>w. ECS options now eh sh = Inr w \<and> systemsFirst w = js_or v (JBool False) \<and>
           entities w = [] \<and> systems w = [] \<and> updateCounter w = 0 \<and> lastUpdate w = now"
    by (simp add: ECS_def)
next
  fix props
  assume o: "options = JObject props"
    and f: "map_of props ''systemsFirst'' = None \<or>
       (\<exists>v. map_of props ''systemsFirst'' = Some v \<and> \<not> truthy v)"
  then show "\<exists>w. ECS options now eh sh = Inr w \<and> systemsFirst w = JBool False \<and>
           (\<forall>upd t. update upd t w = updateEntities upd t (t - lastUpdate w) w)"
    by (auto simp: ECS_def js_or_def update_def)
qed

text \<open>
  C9, amended, at four arguments: \<open>undefined\<close> and \<open>null\<close> throw, the empty object and the
  object with \<open>systemsFirst: 0\<close> build the fresh example world, whose updates are
  entities-first.
\<close>

theorem constructor_options_witness:
  "ECS JUndefined 10 example_entities example_systems = Inl TypeError \<and>
   ECS JNull 10 example_entities example_systems = Inl TypeError \<and>
   ECS (JObject []) 10 example_entities example_systems = Inr example_fresh \<and>
   systemsFirst example_fresh = JBool False \<and>
   update move 15 example_fresh = updateEntities move 15 (15 - lastUpdate example_fresh) example_fresh \<and>
   map_of [(''systemsFirst'', JNumber 0)] ''systemsFirst'' = Some (JNumber 0) \<and>
   \<not> truthy (JNumber 0) \<and>
   ECS (JObject [(''systemsFirst'', JNumber 0)]) 10 example_entities example_systems
     = Inr example_fresh"
  using constructor_options[of JUndefined 10 example_entities example_systems]
    constructor_options[of JNull 10 example_entities example_systems]
    constructor_options[of "JObject []" 10 example_entities example_systems]
    constructor_options[of "JObject [(''systemsFirst'', JNumber 0)]" 10 example_entities example_systems]
    example_fresh_built
  by (auto simp: ECS_def js_or_def example_fresh_def)

text \<open>
  C9 as stated fails: the number 5 is not an object, and \<open>new ECS(5)\<close> does not throw. It
  builds the same registry as \<open>new ECS({})\<close>, and so do a string and a boolean.
\<close>

theorem constructor_options_counterexample:
  "ECS (JNumber 5) 10 example_entities example_systems = Inr example_fresh \<and>
   ECS (JNumber 5) 10 example_entities example_systems \<noteq> Inl TypeError \<and>
   ECS (JString ''fast'') 10 example_entities example_systems = Inr example_fresh \<and>
   ECS (JBool True) 10 example_entities example_systems = Inr example_fresh"
  by (simp add: ECS_def js_or_def example_fresh_def)

subsection \<open>C10: the elapsed time of the first tick\<close>

text \<open>
  C10. The constructor sets \<open>lastUpdate\<close> to the clock reading \<open>t0\<close> at construction, and no
  registration or removal changes it. So in the first call of \<open>update()\<close>, at clock reading
  \<open>now\<close>, every call of \<open>system.update\<close> receives the elapsed time \<open>now - t0\<close>, the time since
  construction; the call leaves \<open>lastUpdate\<close> at \<open>now\<close>, and with quiet callbacks it returns.
\<close>

theorem first_update_elapsed:
  assumes con: "ECS options t0 eh sh = Inr w0"
    and ops: "w = fold perform ops w0"
  shows "lastUpdate w0 = t0 \<and> lastUpdate w = t0 \<and>
         (\<forall>w'. update upd now w = Some w' \<longrightarrow>
            (\<forall>ev \<in> set (emitted w w'). \<exists>s e. ev = SystemUpdate s e (now - t0)) \<and>
            lastUpdate w' = now) \<and>
         (quiet upd \<longrightarrow> (\<exists>w'. update upd now w = Some w'))"
proof -
  from con have l0: "lastUpdate w0 = t0"
    by (auto simp: ECS_def split: sum.splits)
  with ops have l: "lastUpdate w = t0" by (simp add: lastUpdate_fold_perform)
  have part: "(\<forall>ev \<in> set (emitted w w'). \<exists>s e. ev = SystemUpdate s e (now - t0)) \<and> lastUpdate w' = now"
    if ret: "update upd now w = Some w'" for w'
  proof -
    define I where "I = (\<lambda>v::world. length (trace w) \<le> length (trace v) \<and>
       (\<forall>ev \<in> set (drop (length (trace w)) (trace v)). \<exists>s e. ev = SystemUpdate s e (now - t0)))"
    have init: "I w" by (simp add: I_def)
    have step: "I (System_update upd s x (now - lastUpdate w) v)" if "I v" "\<not> skips v s" for v s x
      using that(1) l by (auto simp: I_def)
    from update_invariant[where I = I, OF ret step init] obtain v where
      "I v" "w' = v\<lparr>updateCounter := updateCounter v + 1, lastUpdate := now\<rparr>" by blast
    then show ?thesis by (simp add: I_def emitted_def)
  qed
  have tot: "\<exists>w'. update upd now w = Some w'" if "quiet upd"
    using update_quiet[OF that, of now w] by blast
  from l0 l part tot show ?thesis by blast
qed

text \<open>
  C10 at the example population: constructed at time 10 and populated, the registry is
  first updated at time 15, and every callback receives the elapsed time 5.
\<close>

theorem first_update_elapsed_witness:
  "ECS (JObject []) 10 example_entities example_systems = Inr example_fresh \<and>
   example_world
     = fold perform [AddSystem 1, AddSystem 2, AddSystem 3, AddEntity 1, AddEntity 2] example_fresh \<and>
   lastUpdate example_fresh = 10 \<and> lastUpdate example_world = 10 \<and> quiet move \<and>
   (\<exists>w'. update move 15 example_world = Some w' \<and>
         emitted example_world w' = [SystemUpdate 1 1 5, SystemUpdate 1 2 5, SystemUpdate 2 2 5] \<and>
         lastUpdate w' = 15)"
  using first_update_elapsed[OF example_fresh_built example_world_built[symmetric], of move 15]
    example_fresh_built example_world_built quiet_move update_move_example
  by auto

end
